theory Spec2Isabelle
  imports Main "HOL-Library.Word" "HOL-Library.Multiset"
begin

section \<open>The chunked upload of socrata/sources.py\<close>

text \<open>
  The theory embeds the chunked-upload part of \<^verbatim>\<open>socrata/sources.py\<close>: the class
  \<^verbatim>\<open>ChunkIterator\<close>, the method \<^verbatim>\<open>Source._chunked_bytes\<close> and the upload
  entry points of \<^verbatim>\<open>Source\<close> that call it. Python integers are \<open>int\<close>, byte
  strings are lists of 8-bit words, every exception is a value of \<open>error\<close>, and
  every HTTP call the code makes is recorded as an \<open>event\<close>.
\<close>

subsection \<open>Bytes, exceptions and file objects\<close>

type_synonym byte = "8 word"
type_synonym bytes = "byte list"

text \<open>
  The exceptions the modelled code can raise or let through. \<open>TransportError\<close>
  stands for whatever the HTTP layer raises; its argument tells two of them apart.
\<close>

datatype error =
    StopIteration
  | AttributeError
  | IndexError
  | ValueError
  | TransportError nat

text \<open>
  What the upload methods receive as \<^verbatim>\<open>file_handle\<close>. \<open>FileHandle bs\<close> is a binary
  file as returned by \<^verbatim>\<open>open(path, 'rb')\<close>, with \<open>bs\<close> the bytes not yet read.
  \<open>BytesObject bs\<close> is a Python \<^verbatim>\<open>bytes\<close> value, which has no \<^verbatim>\<open>read\<close> attribute.
\<close>

datatype file_object = FileHandle bytes | BytesObject bytes

text \<open>
  \<^verbatim>\<open>filelike.read(n)\<close>: up to \<open>n\<close> bytes, everything that is left when \<open>n\<close> is
  negative; the result is the bytes read and the file object advanced past them.
\<close>

fun file_read :: "file_object \<Rightarrow> int \<Rightarrow> error + (bytes \<times> file_object)" where
  "file_read (FileHandle bs) n =
     (if n < 0 then Inr (bs, FileHandle [])
      else Inr (take (nat n) bs, FileHandle (drop (nat n) bs)))"
| "file_read (BytesObject bs) n = Inl AttributeError"

fun unread :: "file_object \<Rightarrow> nat" where
  "unread (FileHandle bs) = length bs"
| "unread (BytesObject bs) = length bs"

subsection \<open>ChunkIterator\<close>

text \<open>
  A chunk is the tuple \<^verbatim>\<open>(this_seq, this_byte_offset, self.byte_offset, read)\<close> that
  \<^verbatim>\<open>__next__\<close> returns: sequence number, first byte, end byte, payload.
\<close>

type_synonym chunk = "int \<times> int \<times> int \<times> bytes"

definition chunk_seq :: "chunk \<Rightarrow> int" where
  "chunk_seq c = fst c"

definition chunk_start :: "chunk \<Rightarrow> int" where
  "chunk_start c = fst (snd c)"

definition chunk_end :: "chunk \<Rightarrow> int" where
  "chunk_end c = fst (snd (snd c))"

definition chunk_payload :: "chunk \<Rightarrow> bytes" where
  "chunk_payload c = snd (snd (snd c))"

text \<open>
  The fields of a \<^verbatim>\<open>ChunkIterator\<close>. The lock is not a field of the model: one call
  of \<^verbatim>\<open>__next__\<close> is one application of \<open>ChunkIterator_next\<close>.
\<close>

record ChunkIterator =
  filelike :: file_object
  chunk_size :: int
  seq_num :: int
  byte_offset :: int

definition ChunkIterator_init :: "file_object \<Rightarrow> int \<Rightarrow> ChunkIterator" where
  "ChunkIterator_init f n = \<lparr>filelike = f, chunk_size = n, seq_num = 0, byte_offset = 0\<rparr>"

text \<open>
  \<^verbatim>\<open>__next__\<close>: \<open>Inl StopIteration\<close> when the read is empty, \<open>Inl\<close> of the error when
  the read raises, otherwise the chunk and the iterator with its counters advanced.
\<close>

definition ChunkIterator_next :: "ChunkIterator \<Rightarrow> error + (chunk \<times> ChunkIterator)" where
  "ChunkIterator_next self =
     (case file_read (filelike self) (chunk_size self) of
        Inl e \<Rightarrow> Inl e
      | Inr (read, f') \<Rightarrow>
          if read = [] then Inl StopIteration
          else
            let this_seq = seq_num self;
                this_byte_offset = byte_offset self;
                self' = self\<lparr>filelike := f', seq_num := seq_num self + 1,
                          byte_offset := byte_offset self + int (length read)\<rparr>
            in Inr ((this_seq, this_byte_offset, byte_offset self', read), self'))"

lemma next_unread:
  "ChunkIterator_next it = Inr (c, it') \<Longrightarrow> unread (filelike it') < unread (filelike it)"
  by (cases "filelike it")
     (auto simp: ChunkIterator_next_def Let_def split: if_splits)

text \<open>
  Iterating to the end: the chunks produced, in read order, and the exception that
  ended the iteration (\<open>StopIteration\<close> on a clean end).
\<close>

function iterate :: "ChunkIterator \<Rightarrow> chunk list \<times> error" where
  "iterate it =
     (case ChunkIterator_next it of
        Inl e \<Rightarrow> ([], e)
      | Inr (c, it') \<Rightarrow> (c # fst (iterate it'), snd (iterate it')))"
  by pat_completeness auto
termination
  by (relation "measure (\<lambda>it. unread (filelike it))") (auto dest: next_unread)

declare iterate.simps [simp del]

definition chunks_of :: "ChunkIterator \<Rightarrow> chunk list" where
  "chunks_of it = fst (iterate it)"

definition end_signal :: "ChunkIterator \<Rightarrow> error" where
  "end_signal it = snd (iterate it)"

text \<open>
  The contiguity invariant as a predicate on a chunk list: numbered from \<open>s\<close>, the
  first chunk starts at byte \<open>b\<close>, every chunk ends where its payload ends and the
  next one starts there, and no payload is empty.
\<close>

fun chained :: "int \<Rightarrow> int \<Rightarrow> chunk list \<Rightarrow> bool" where
  "chained s b [] = True"
| "chained s b (c # cs) =
     (chunk_seq c = s \<and> chunk_start c = b \<and>
      chunk_end c = b + int (length (chunk_payload c)) \<and> chunk_payload c \<noteq> [] \<and>
      chained (s + 1) (chunk_end c) cs)"

subsection \<open>The resource and its remote calls\<close>

text \<open>
  A \<^verbatim>\<open>Source\<close> resource, reduced to what the upload methods read of it: its identity
  and \<^verbatim>\<open>attributes['parse_options']['parse_source']\<close>.
\<close>

record source =
  source_id :: nat
  parse_source :: bool

text \<open>
  The calls the upload methods make on the remote service, in the order they are
  issued. An event carries the resource the method was called on and the call's
  arguments.
\<close>

datatype event =
    Initiate source string
  | Chunk source int int bytes
  | Commit source int int
  | Show source
  | ChangeParseOption source string bool

record init_response =
  preferred_chunk_size :: int
  preferred_upload_parallelism :: int

text \<open>
  The HTTP layer (\<^verbatim>\<open>socrata.http\<close>) and the resource layer (\<^verbatim>\<open>socrata.resource\<close>,
  \<^verbatim>\<open>socrata.builders.parse_options\<close>) are outside the modelled code. What they answer
  to each call is a parameter: a reply is the value returned or the exception raised.
\<close>

record remote =
  initiate_reply :: "source \<Rightarrow> string \<Rightarrow> error + init_response"
  chunk_reply :: "source \<Rightarrow> int \<Rightarrow> int \<Rightarrow> bytes \<Rightarrow> error + unit"
  commit_reply :: "source \<Rightarrow> int \<Rightarrow> int \<Rightarrow> error + unit"
  show_reply :: "source \<Rightarrow> error + source"
  change_parse_option_reply :: "source \<Rightarrow> string \<Rightarrow> bool \<Rightarrow> error + source"

text \<open>
  A method that talks to the service returns its result together with the events it
  issued, oldest first.
\<close>

definition Source_initiate ::
  "remote \<Rightarrow> source \<Rightarrow> string \<Rightarrow> (error + init_response) \<times> event list" where
  "Source_initiate R self content_type =
     (initiate_reply R self content_type, [Initiate self content_type])"

definition Source_chunk ::
  "remote \<Rightarrow> source \<Rightarrow> int \<Rightarrow> int \<Rightarrow> bytes \<Rightarrow> (error + unit) \<times> event list" where
  "Source_chunk R self seq start payload =
     (chunk_reply R self seq start payload, [Chunk self seq start payload])"

definition Source_commit ::
  "remote \<Rightarrow> source \<Rightarrow> int \<Rightarrow> int \<Rightarrow> (error + unit) \<times> event list" where
  "Source_commit R self seq end_offset =
     (commit_reply R self seq end_offset, [Commit self seq end_offset])"

definition Source_show :: "remote \<Rightarrow> source \<Rightarrow> (error + source) \<times> event list" where
  "Source_show R self = (show_reply R self, [Show self])"

text \<open>\<^verbatim>\<open>self.change_parse_option(name).to(value).run()\<close>\<close>

definition change_parse_option ::
  "remote \<Rightarrow> source \<Rightarrow> string \<Rightarrow> bool \<Rightarrow> (error + source) \<times> event list" where
  "change_parse_option R self name val =
     (change_parse_option_reply R self name val, [ChangeParseOption self name val])"

subsection \<open>The worker pool\<close>

text \<open>
  A completion record is the tuple \<^verbatim>\<open>(seq_num, byte_offset, end_byte_offset)\<close> that
  \<^verbatim>\<open>sendit\<close> returns.
\<close>

type_synonym completion = "int \<times> int \<times> int"

text \<open>The closure \<^verbatim>\<open>sendit\<close> of \<^verbatim>\<open>_chunked_bytes\<close>.\<close>

definition sendit :: "remote \<Rightarrow> source \<Rightarrow> chunk \<Rightarrow> (error + completion) \<times> event list" where
  "sendit R self c =
     (case c of (seq, start, end_offset, payload) \<Rightarrow>
        (case Source_chunk R self seq start payload of
           (Inl e, ev) \<Rightarrow> (Inl e, ev)
         | (Inr ack, ev) \<Rightarrow> (Inr (seq, start, end_offset), ev)))"

text \<open>
  Modelled from the spec: \<^verbatim>\<open>LazyThreadPoolExecutor\<close> (\<^verbatim>\<open>socrata/lazy_pool.py\<close>), whose
  \<^verbatim>\<open>map\<close> the upload calls, is not among the sources. The spec's WorkerPool pulls
  chunks from the reader while fewer than \<open>N\<close> calls are in flight, runs the function
  on each, and collects the completion records in the order the calls return, which
  need not be the order of the sequence numbers. On the first failure it stops
  admitting chunks; the calls in flight still return, and their results are
  discarded. No call is made twice. The pool returns when nothing is in flight and
  the reader is at its end or a failure has been seen.

  The state of the pool: the reader, whether it has signalled its end, the outcomes
  of the calls in flight, the completion records collected, the first error, and the
  events issued so far.
\<close>

record 'b pool_state =
  reader :: ChunkIterator
  exhausted :: bool
  in_flight :: "(error + 'b) list"
  completed :: "'b list"
  first_error :: "error option"
  calls :: "event list"

text \<open>
  Modelled from the spec: the moves of the pool (\<^verbatim>\<open>socrata/lazy_pool.py\<close> is not among
  the sources). A free worker pulls a chunk and starts its call, or the call at
  position \<open>i\<close> among those in flight returns. The pool is done when nothing is in
  flight and the reader is at its end or a failure has been seen; it admits a chunk
  only while no failure has been seen, the reader has not ended and fewer than \<open>N\<close>
  calls are in flight.
\<close>

datatype action = Admit | Finish nat

definition pool_finished :: "'b pool_state \<Rightarrow> bool" where
  "pool_finished st \<longleftrightarrow> in_flight st = [] \<and> (first_error st \<noteq> None \<or> exhausted st)"

definition admissible :: "int \<Rightarrow> 'b pool_state \<Rightarrow> bool" where
  "admissible N st \<longleftrightarrow>
     first_error st = None \<and> \<not> exhausted st \<and> int (length (in_flight st)) < N"

text \<open>
  Modelled from the spec: a worker of the pool (not among the sources) pulls the next
  chunk, which is one call of \<^verbatim>\<open>__next__\<close>, and issues its call. The spec does not
  say what the pool does with an exception of the reader other than StopIteration;
  here it becomes the pool's error. Reading a file handle never raises, so this
  choice is met only when the reader is built on a value that cannot be read.
\<close>

definition admit :: "(chunk \<Rightarrow> (error + 'b) \<times> event list) \<Rightarrow> 'b pool_state \<Rightarrow> 'b pool_state" where
  "admit fn st =
     (case ChunkIterator_next (reader st) of
        Inl e \<Rightarrow>
          if e = StopIteration then st\<lparr>exhausted := True\<rparr>
          else st\<lparr>first_error := Some e\<rparr>
      | Inr (c, it') \<Rightarrow>
          (case fn c of (r, ev) \<Rightarrow>
             st\<lparr>reader := it', in_flight := in_flight st @ [r], calls := calls st @ ev\<rparr>))"

text \<open>
  Modelled from the spec: a call of the pool (not among the sources) returns, the one
  at position \<open>i\<close>. Its record is collected unless a failure has been seen; its
  error becomes the pool's error unless there is one already.
\<close>

definition finish :: "nat \<Rightarrow> 'b pool_state \<Rightarrow> 'b pool_state" where
  "finish i st =
     (let rest = take i (in_flight st) @ drop (Suc i) (in_flight st) in
      case in_flight st ! i of
        Inl e \<Rightarrow>
          st\<lparr>in_flight := rest,
             first_error := (case first_error st of None \<Rightarrow> Some e | Some e0 \<Rightarrow> Some e0)\<rparr>
      | Inr x \<Rightarrow>
          st\<lparr>in_flight := rest,
             completed := (if first_error st = None then completed st @ [x] else completed st)\<rparr>)"

text \<open>
  Modelled from the spec: the order in which the workers of the pool (not among the
  sources) act is not fixed, so it is a parameter, the schedule: a list of actions,
  one per step. A scheduled action that is not possible in the current state is
  replaced by one that is: the oldest call in flight returns, or, when nothing is in
  flight, a chunk is admitted. Every interleaving of the workers is the run of some
  schedule, and every schedule gives a complete run.
\<close>

definition next_action :: "int \<Rightarrow> action list \<Rightarrow> 'b pool_state \<Rightarrow> action" where
  "next_action N sched st =
     (let fallback = (if in_flight st = [] then Admit else Finish 0) in
      case sched of
        [] \<Rightarrow> fallback
      | a # rest \<Rightarrow>
          (case a of
             Admit \<Rightarrow> if admissible N st then Admit else fallback
           | Finish i \<Rightarrow> if i < length (in_flight st) then Finish i else fallback))"

text \<open>
  Every step lowers this measure: twice the bytes not yet read, plus the calls in
  flight, plus one while chunks can still be admitted.
\<close>

definition pool_measure :: "'b pool_state \<Rightarrow> nat" where
  "pool_measure st =
     2 * unread (filelike (reader st)) + length (in_flight st) +
     (if first_error st = None \<and> \<not> exhausted st then 1 else 0)"

lemma admit_measure:
  "first_error st = None \<Longrightarrow> \<not> exhausted st \<Longrightarrow> pool_measure (admit fn st) < pool_measure st"
  by (auto simp: admit_def pool_measure_def split: sum.splits prod.splits dest: next_unread)

lemma finish_measure:
  "i < length (in_flight st) \<Longrightarrow> pool_measure (finish i st) < pool_measure st"
  by (auto simp: finish_def pool_measure_def Let_def split: sum.splits option.splits)

lemma next_action_Admit:
  "\<not> pool_finished st \<Longrightarrow> next_action N sched st = Admit \<Longrightarrow>
   first_error st = None \<and> \<not> exhausted st"
  by (auto simp: next_action_def pool_finished_def admissible_def Let_def
      split: list.splits action.splits if_splits)

lemma next_action_Finish:
  "next_action N sched st = Finish i \<Longrightarrow> i < length (in_flight st)"
  by (auto simp: next_action_def Let_def split: list.splits action.splits if_splits)

text \<open>
  Modelled from the spec: the run of the pool (not among the sources) from a state,
  step by step along the schedule, until the pool is done.
\<close>

function pool_run ::
  "int \<Rightarrow> (chunk \<Rightarrow> (error + 'b) \<times> event list) \<Rightarrow> action list \<Rightarrow> 'b pool_state
     \<Rightarrow> 'b pool_state" where
  "pool_run N fn sched st =
     (if pool_finished st then st
      else case next_action N sched st of
             Admit \<Rightarrow> pool_run N fn (tl sched) (admit fn st)
           | Finish i \<Rightarrow> pool_run N fn (tl sched) (finish i st))"
  by pat_completeness auto
termination
  by (relation "measure (\<lambda>(N, fn, sched, st). pool_measure st)")
     (auto dest: next_action_Admit next_action_Finish intro: admit_measure finish_measure)

declare pool_run.simps [simp del]

text \<open>
  Modelled from the spec: \<^verbatim>\<open>LazyThreadPoolExecutor(N).map(fn, iterator)\<close> (not among the
  sources), all results collected: the list of completion records in arrival order,
  or the first error. The spec takes the worker count to be the server's positive
  hint and says nothing of a count below one; here such a count is rejected before
  any chunk is read, a choice of this model that no property of an upload with at
  least one worker depends on.
\<close>

definition pool_map ::
  "int \<Rightarrow> (chunk \<Rightarrow> (error + 'b) \<times> event list) \<Rightarrow> action list \<Rightarrow> ChunkIterator
     \<Rightarrow> (error + 'b list) \<times> event list" where
  "pool_map N fn sched it =
     (if N < 1 then (Inl ValueError, [])
      else
        let st = pool_run N fn sched
                   \<lparr>reader = it, exhausted = False, in_flight = [], completed = [],
                    first_error = None, calls = []\<rparr>
        in (case first_error st of Some e \<Rightarrow> Inl e | None \<Rightarrow> Inr (completed st), calls st))"

subsection \<open>The upload methods of Source\<close>

text \<open>Python's \<^verbatim>\<open>xs[-1]\<close>.\<close>

definition py_last :: "'a list \<Rightarrow> error + 'a" where
  "py_last xs = (if xs = [] then Inl IndexError else Inr (last xs))"

text \<open>
  \<^verbatim>\<open>Source._chunked_bytes\<close>. The schedule of the pool's workers is a parameter.
  \<^verbatim>\<open>sorted(results, key=lambda x: x[0])\<close> is \<open>sort_key\<close> on the first component; both
  sorts are stable.
\<close>

definition Source_chunked_bytes ::
  "remote \<Rightarrow> action list \<Rightarrow> source \<Rightarrow> file_object \<Rightarrow> string \<Rightarrow> (error + source) \<times> event list" where
  "Source_chunked_bytes R sched self file_handle content_type =
     (case Source_initiate R self content_type of
        (Inl e, ev1) \<Rightarrow> (Inl e, ev1)
      | (Inr init, ev1) \<Rightarrow>
          let chunk_sz = preferred_chunk_size init;
              parallelism = preferred_upload_parallelism init
          in (case pool_map parallelism (sendit R self) sched
                     (ChunkIterator_init file_handle chunk_sz) of
                (Inl e, ev2) \<Rightarrow> (Inl e, ev1 @ ev2)
              | (Inr results, ev2) \<Rightarrow>
                  (case py_last (sort_key (\<lambda>x. fst x) results) of
                     Inl e \<Rightarrow> (Inl e, ev1 @ ev2)
                   | Inr (seq, start, end_offset) \<Rightarrow>
                       (case Source_commit R self seq end_offset of
                          (Inl e, ev3) \<Rightarrow> (Inl e, ev1 @ ev2 @ ev3)
                        | (Inr ack, ev3) \<Rightarrow>
                            (case Source_show R self of
                               (r, ev4) \<Rightarrow> (r, ev1 @ ev2 @ ev3 @ ev4))))))"

text \<open>
  \<^verbatim>\<open>Source.bytes\<close>: the call's value is dropped and the method returns \<^verbatim>\<open>None\<close>.
\<close>

definition Source_bytes ::
  "remote \<Rightarrow> action list \<Rightarrow> source \<Rightarrow> file_object \<Rightarrow> string
     \<Rightarrow> (error + source option) \<times> event list" where
  "Source_bytes R sched self file_handle content_type =
     (case Source_chunked_bytes R sched self file_handle content_type of
        (Inl e, ev) \<Rightarrow> (Inl e, ev)
      | (Inr snapshot, ev) \<Rightarrow> (Inr None, ev))"

definition Source_blob ::
  "remote \<Rightarrow> action list \<Rightarrow> source \<Rightarrow> file_object \<Rightarrow> (error + source) \<times> event list" where
  "Source_blob R sched self file_handle =
     (if parse_source self then
        (case change_parse_option R self ''parse_source'' False of
           (Inl e, ev0) \<Rightarrow> (Inl e, ev0)
         | (Inr src, ev0) \<Rightarrow>
             (case Source_chunked_bytes R sched src file_handle ''application/octet-stream'' of
                (r, ev) \<Rightarrow> (r, ev0 @ ev)))
      else Source_chunked_bytes R sched self file_handle ''application/octet-stream'')"

definition Source_csv ::
  "remote \<Rightarrow> action list \<Rightarrow> source \<Rightarrow> file_object \<Rightarrow> (error + source) \<times> event list" where
  "Source_csv R sched self file_handle =
     Source_chunked_bytes R sched self file_handle ''text/csv''"

definition Source_xls ::
  "remote \<Rightarrow> action list \<Rightarrow> source \<Rightarrow> file_object \<Rightarrow> (error + source) \<times> event list" where
  "Source_xls R sched self file_handle =
     Source_chunked_bytes R sched self file_handle ''application/vnd.ms-excel''"

definition Source_xlsx ::
  "remote \<Rightarrow> action list \<Rightarrow> source \<Rightarrow> file_object \<Rightarrow> (error + source) \<times> event list" where
  "Source_xlsx R sched self file_handle =
     Source_chunked_bytes R sched self file_handle
       ''application/vnd.openxmlformats-officedocument.spreadsheetml.sheet''"

definition Source_tsv ::
  "remote \<Rightarrow> action list \<Rightarrow> source \<Rightarrow> file_object \<Rightarrow> (error + source) \<times> event list" where
  "Source_tsv R sched self file_handle =
     Source_chunked_bytes R sched self file_handle ''text/tab-separated-values''"

definition Source_shapefile ::
  "remote \<Rightarrow> action list \<Rightarrow> source \<Rightarrow> file_object \<Rightarrow> (error + source) \<times> event list" where
  "Source_shapefile R sched self file_handle =
     Source_chunked_bytes R sched self file_handle ''application/zip''"

definition Source_kml ::
  "remote \<Rightarrow> action list \<Rightarrow> source \<Rightarrow> file_object \<Rightarrow> (error + source) \<times> event list" where
  "Source_kml R sched self file_handle =
     Source_chunked_bytes R sched self file_handle ''application/vnd.google-earth.kml+xml''"

definition Source_geojson ::
  "remote \<Rightarrow> action list \<Rightarrow> source \<Rightarrow> file_object \<Rightarrow> (error + source) \<times> event list" where
  "Source_geojson R sched self file_handle =
     Source_chunked_bytes R sched self file_handle ''application/vnd.geo+json''"

text \<open>
  \<^verbatim>\<open>Source.df\<close>. The serialisation of the DataFrame by pandas is outside the model;
  \<open>csv_text\<close> is the encoded text, \<^verbatim>\<open>s.getvalue().encode()\<close>. What reaches
  \<^verbatim>\<open>_chunked_bytes\<close> is the \<^verbatim>\<open>bytes\<close> value itself.
\<close>

definition Source_df ::
  "remote \<Rightarrow> action list \<Rightarrow> source \<Rightarrow> bytes \<Rightarrow> (error + source) \<times> event list" where
  "Source_df R sched self csv_text =
     Source_chunked_bytes R sched self (BytesObject csv_text) ''text/csv''"

subsection \<open>Reading a trace\<close>

fun chunk_calls :: "event list \<Rightarrow> (source \<times> int \<times> int \<times> bytes) list" where
  "chunk_calls [] = []"
| "chunk_calls (Chunk s seq start payload # evs) = (s, seq, start, payload) # chunk_calls evs"
| "chunk_calls (ev # evs) = chunk_calls evs"

fun commit_calls :: "event list \<Rightarrow> (source \<times> int \<times> int) list" where
  "commit_calls [] = []"
| "commit_calls (Commit s seq end_offset # evs) = (s, seq, end_offset) # commit_calls evs"
| "commit_calls (ev # evs) = commit_calls evs"

fun show_calls :: "event list \<Rightarrow> source list" where
  "show_calls [] = []"
| "show_calls (Show s # evs) = s # show_calls evs"
| "show_calls (ev # evs) = show_calls evs"

fun initiate_calls :: "event list \<Rightarrow> (source \<times> string) list" where
  "initiate_calls [] = []"
| "initiate_calls (Initiate s content_type # evs) = (s, content_type) # initiate_calls evs"
| "initiate_calls (ev # evs) = initiate_calls evs"

fun toggle_calls :: "event list \<Rightarrow> (source \<times> string \<times> bool) list" where
  "toggle_calls [] = []"
| "toggle_calls (ChangeParseOption s name val # evs) = (s, name, val) # toggle_calls evs"
| "toggle_calls (ev # evs) = toggle_calls evs"

subsection \<open>The upload with the pool as a parameter\<close>





subsection \<open>Concurrent callers of \<^verbatim>\<open>__next__\<close>\<close>

text \<open>
  Where a caller stands in \<^verbatim>\<open>__next__\<close>, one phase per statement, with the values of
  its local variables \<^verbatim>\<open>read\<close>, \<^verbatim>\<open>this_seq\<close> and \<^verbatim>\<open>this_byte_offset\<close> once they are
  assigned: outside the method; inside \<^verbatim>\<open>with self.lock\<close>, before the read; after
  the read; after \<^verbatim>\<open>this_seq = self.seq_num\<close>; after
  \<^verbatim>\<open>this_byte_offset = self.byte_offset\<close>; after \<^verbatim>\<open>self.seq_num\<close> is increased; after
  \<^verbatim>\<open>self.byte_offset\<close> is increased, before the return.
\<close>

datatype phase =
    Outside
  | Acquired
  | ReadDone bytes
  | GotSeq bytes int
  | GotOffset bytes int int
  | SeqBumped bytes int int
  | OffsetBumped bytes int int

text \<open>
  One iterator object shared by several callers: its fields, the holder of its lock,
  the phase of every caller, and what the calls have returned and raised so far,
  each with the caller it went to, oldest first.
\<close>

record shared_iterator =
  iterator :: ChunkIterator
  lock :: "nat option"
  callers :: "phase list"
  delivered :: "(nat \<times> chunk) list"
  raised :: "(nat \<times> error) list"

definition shared_init :: "nat \<Rightarrow> file_object \<Rightarrow> int \<Rightarrow> shared_iterator" where
  "shared_init n f C =
     \<lparr>iterator = ChunkIterator_init f C, lock = None, callers = replicate n Outside,
      delivered = [], raised = []\<rparr>"

text \<open>
  Caller \<open>t\<close> executes its next statement; \<open>None\<close> when it cannot move: there is no
  such caller, or it waits for the lock. Leaving the \<^verbatim>\<open>with\<close> block, by the return
  or by an exception, releases the lock. A caller that is outside calls
  \<^verbatim>\<open>__next__\<close> again.
\<close>

definition caller_step :: "nat \<Rightarrow> shared_iterator \<Rightarrow> shared_iterator option" where
  "caller_step t st =
     (if length (callers st) \<le> t then None
      else case callers st ! t of
        Outside \<Rightarrow>
          (case lock st of
             None \<Rightarrow> Some (st\<lparr>lock := Some t, callers := (callers st)[t := Acquired]\<rparr>)
           | Some holder \<Rightarrow> None)
      | Acquired \<Rightarrow>
          (case file_read (filelike (iterator st)) (chunk_size (iterator st)) of
             Inl e \<Rightarrow>
               Some (st\<lparr>lock := None, callers := (callers st)[t := Outside],
                       raised := raised st @ [(t, e)]\<rparr>)
           | Inr (read, f') \<Rightarrow>
               Some (st\<lparr>iterator := (iterator st)\<lparr>filelike := f'\<rparr>,
                       callers := (callers st)[t := ReadDone read]\<rparr>))
      | ReadDone read \<Rightarrow>
          if read = [] then
            Some (st\<lparr>lock := None, callers := (callers st)[t := Outside],
                    raised := raised st @ [(t, StopIteration)]\<rparr>)
          else Some (st\<lparr>callers := (callers st)[t := GotSeq read (seq_num (iterator st))]\<rparr>)
      | GotSeq read this_seq \<Rightarrow>
          Some (st\<lparr>callers :=
                  (callers st)[t := GotOffset read this_seq (byte_offset (iterator st))]\<rparr>)
      | GotOffset read this_seq this_byte_offset \<Rightarrow>
          Some (st\<lparr>iterator := (iterator st)\<lparr>seq_num := seq_num (iterator st) + 1\<rparr>,
                  callers := (callers st)[t := SeqBumped read this_seq this_byte_offset]\<rparr>)
      | SeqBumped read this_seq this_byte_offset \<Rightarrow>
          Some (st\<lparr>iterator :=
                    (iterator st)\<lparr>byte_offset := byte_offset (iterator st) + int (length read)\<rparr>,
                  callers := (callers st)[t := OffsetBumped read this_seq this_byte_offset]\<rparr>)
      | OffsetBumped read this_seq this_byte_offset \<Rightarrow>
          Some (st\<lparr>lock := None, callers := (callers st)[t := Outside],
                  delivered := delivered st @
                    [(t, (this_seq, this_byte_offset, byte_offset (iterator st), read))]\<rparr>))"

text \<open>
  An interleaving is the list of the callers that are given a turn, in order; a caller
  that cannot move loses its turn.
\<close>

fun interleave :: "nat list \<Rightarrow> shared_iterator \<Rightarrow> shared_iterator" where
  "interleave [] st = st"
| "interleave (t # ts) st =
     interleave ts (case caller_step t st of None \<Rightarrow> st | Some st' \<Rightarrow> st')"

subsection \<open>Auxiliary notions for the proofs\<close>

text \<open>
  The chunks the pool can still admit from a state, the relation between a state and
  the state a run ends in (\<open>j\<close> chunks admitted in between), the completion record
  and the call of a chunk, a chunk whose call the service accepts, and the part of
  \<^verbatim>\<open>_chunked_bytes\<close> that follows the pool.
\<close>

definition future :: "'b pool_state \<Rightarrow> chunk list" where
  "future st = (if exhausted st \<or> first_error st \<noteq> None then [] else chunks_of (reader st))"

definition pool_post ::
  "(chunk \<Rightarrow> (error + 'b) \<times> event list) \<Rightarrow> 'b pool_state \<Rightarrow> 'b pool_state \<Rightarrow> nat \<Rightarrow> bool" where
  "pool_post fn st st' j \<longleftrightarrow>
     j \<le> length (future st) \<and>
     calls st' = calls st @ concat (map (\<lambda>c. snd (fn c)) (take j (future st))) \<and>
     (\<forall>e. first_error st = Some e \<longrightarrow> first_error st' = Some e) \<and>
     (\<forall>e. first_error st' = Some e \<longrightarrow>
        first_error st = Some e \<or> Inl e \<in> set (in_flight st) \<or>
        (\<exists>c \<in> set (take j (future st)). fst (fn c) = Inl e) \<or>
        (first_error st = None \<and> \<not> exhausted st \<and> e \<noteq> StopIteration \<and>
         end_signal (reader st) = e)) \<and>
     (first_error st' = None \<longrightarrow>
        j = length (future st) \<and>
        mset (map Inr (completed st')) =
          mset (map Inr (completed st)) + mset (in_flight st) +
          mset (map (\<lambda>c. fst (fn c)) (future st)) \<and>
        (exhausted st \<or> end_signal (reader st) = StopIteration))"

definition completion_of :: "chunk \<Rightarrow> completion" where
  "completion_of c = (chunk_seq c, chunk_start c, chunk_end c)"

definition chunk_event :: "source \<Rightarrow> chunk \<Rightarrow> event" where
  "chunk_event self c = Chunk self (chunk_seq c) (chunk_start c) (chunk_payload c)"

definition chunk_accepted :: "remote \<Rightarrow> source \<Rightarrow> chunk \<Rightarrow> bool" where
  "chunk_accepted R self c \<longleftrightarrow>
     chunk_reply R self (chunk_seq c) (chunk_start c) (chunk_payload c) = Inr ()"

definition conclude_upload ::
  "remote \<Rightarrow> source \<Rightarrow> completion list \<Rightarrow> (error + source) \<times> event list" where
  "conclude_upload R self results =
     (case py_last (sort_key (\<lambda>x. fst x) results) of
        Inl e \<Rightarrow> (Inl e, [])
      | Inr (seq, start, end_offset) \<Rightarrow>
          (case commit_reply R self seq end_offset of
             Inl e \<Rightarrow> (Inl e, [Commit self seq end_offset])
           | Inr ack \<Rightarrow> (show_reply R self, [Commit self seq end_offset, Show self])))"

text \<open>The resource a call was made on.\<close>

fun event_source :: "event \<Rightarrow> source" where
  "event_source (Initiate s content_type) = s"
| "event_source (Chunk s seq start payload) = s"
| "event_source (Commit s seq end_offset) = s"
| "event_source (Show s) = s"
| "event_source (ChangeParseOption s name val) = s"

text \<open>
  For the caller that holds the lock: how the fields \<open>cur\<close> of the shared iterator
  relate to the fields \<open>pre\<close> they had when the caller took the lock.
\<close>

fun in_progress :: "ChunkIterator \<Rightarrow> ChunkIterator \<Rightarrow> phase \<Rightarrow> bool" where
  "in_progress pre cur Outside = False"
| "in_progress pre cur Acquired = (cur = pre)"
| "in_progress pre cur (ReadDone read) =
     (file_read (filelike pre) (chunk_size pre) = Inr (read, filelike cur) \<and>
      cur = pre\<lparr>filelike := filelike cur\<rparr>)"
| "in_progress pre cur (GotSeq read s) =
     (file_read (filelike pre) (chunk_size pre) = Inr (read, filelike cur) \<and>
      cur = pre\<lparr>filelike := filelike cur\<rparr> \<and> read \<noteq> [] \<and> s = seq_num pre)"
| "in_progress pre cur (GotOffset read s b) =
     (file_read (filelike pre) (chunk_size pre) = Inr (read, filelike cur) \<and>
      cur = pre\<lparr>filelike := filelike cur\<rparr> \<and> read \<noteq> [] \<and> s = seq_num pre \<and>
      b = byte_offset pre)"
| "in_progress pre cur (SeqBumped read s b) =
     (file_read (filelike pre) (chunk_size pre) = Inr (read, filelike cur) \<and>
      cur = pre\<lparr>filelike := filelike cur, seq_num := seq_num pre + 1\<rparr> \<and> read \<noteq> [] \<and>
      s = seq_num pre \<and> b = byte_offset pre)"
| "in_progress pre cur (OffsetBumped read s b) =
     (file_read (filelike pre) (chunk_size pre) = Inr (read, filelike cur) \<and>
      cur = pre\<lparr>filelike := filelike cur, seq_num := seq_num pre + 1,
                byte_offset := byte_offset pre + int (length read)\<rparr> \<and> read \<noteq> [] \<and>
      s = seq_num pre \<and> b = byte_offset pre)"

text \<open>
  The invariant of the shared iterator: only the holder of the lock is inside the
  method, and what has been delivered, followed by what a sequential iteration would
  still produce from the fields as they were when the lock was last taken, is the
  sequential iteration \<open>every\<close> of the whole stream.
\<close>

definition shared_inv :: "chunk list \<Rightarrow> shared_iterator \<Rightarrow> bool" where
  "shared_inv every st \<longleftrightarrow>
     (\<forall>u < length (callers st). lock st \<noteq> Some u \<longrightarrow> callers st ! u = Outside) \<and>
     (case lock st of
        None \<Rightarrow> map snd (delivered st) @ chunks_of (iterator st) = every
      | Some t \<Rightarrow>
          t < length (callers st) \<and>
          (\<exists>pre. map snd (delivered st) @ chunks_of pre = every \<and>
                 in_progress pre (iterator st) (callers st ! t)))"

subsection \<open>A concrete service for the examples\<close>

text \<open>
  A service that accepts every call and asks for chunks of two bytes sent by three
  workers, one whose chunk call with sequence number 1 fails, and a resource with
  parsing switched on.
\<close>

definition example_init :: init_response where
  "example_init = \<lparr>preferred_chunk_size = 2, preferred_upload_parallelism = 3\<rparr>"

definition example_remote :: remote where
  "example_remote =
     \<lparr>initiate_reply = (\<lambda>s content_type. Inr example_init),
      chunk_reply = (\<lambda>s seq start payload. Inr ()),
      commit_reply = (\<lambda>s seq end_offset. Inr ()),
      show_reply = (\<lambda>s. Inr s),
      change_parse_option_reply = (\<lambda>s name val. Inr (s\<lparr>parse_source := val\<rparr>))\<rparr>"

definition failing_remote :: remote where
  "failing_remote =
     example_remote\<lparr>chunk_reply :=
       (\<lambda>s seq start payload. if seq = 1 then Inl (TransportError 500) else Inr ())\<rparr>"

definition example_source :: source where
  "example_source = \<lparr>source_id = 7, parse_source = True\<rparr>"

subsection \<open>Properties of ChunkIterator\<close>

lemma chunks_of_unfold:
  "chunks_of it =
     (case ChunkIterator_next it of Inl e \<Rightarrow> [] | Inr (c, it') \<Rightarrow> c # chunks_of it')"
  unfolding chunks_of_def
  by (subst iterate.simps) (simp split: sum.splits prod.splits)

lemma end_signal_unfold:
  "end_signal it =
     (case ChunkIterator_next it of Inl e \<Rightarrow> e | Inr (c, it') \<Rightarrow> end_signal it')"
  unfolding end_signal_def
  by (subst iterate.simps) (simp split: sum.splits prod.splits)

lemma next_FileHandle:
  "filelike it = FileHandle bs \<Longrightarrow>
   ChunkIterator_next it =
     (let read = (if chunk_size it < 0 then bs else take (nat (chunk_size it)) bs);
          rest = (if chunk_size it < 0 then [] else drop (nat (chunk_size it)) bs)
      in if read = [] then Inl StopIteration
         else Inr ((seq_num it, byte_offset it, byte_offset it + int (length read), read),
                   it\<lparr>filelike := FileHandle rest, seq_num := seq_num it + 1,
                      byte_offset := byte_offset it + int (length read)\<rparr>))"
  by (simp add: ChunkIterator_next_def Let_def)

lemma next_StopIteration_iff:
  "ChunkIterator_next it = Inl StopIteration \<longleftrightarrow>
   (\<exists>f'. file_read (filelike it) (chunk_size it) = Inr ([], f'))"
  by (cases "filelike it")
     (auto simp: ChunkIterator_next_def Let_def split: sum.splits prod.splits if_splits)

lemma next_chunk_shape:
  assumes "ChunkIterator_next it = Inr (c, it')"
  shows "chunk_seq c = seq_num it" "chunk_start c = byte_offset it"
    "chunk_end c = byte_offset it + int (length (chunk_payload c))"
    "chunk_payload c \<noteq> []" "seq_num it' = seq_num it + 1" "byte_offset it' = chunk_end c"
    "chunk_size it' = chunk_size it"
  using assms
  by (auto simp: ChunkIterator_next_def Let_def chunk_seq_def chunk_start_def chunk_end_def
      chunk_payload_def split: sum.splits prod.splits if_splits)

lemma chained_chunks_of: "chained (seq_num it) (byte_offset it) (chunks_of it)"
proof (induction it rule: iterate.induct)
  case (1 it)
  show ?case
  proof (cases "ChunkIterator_next it")
    case (Inl e)
    then show ?thesis by (subst chunks_of_unfold) simp
  next
    case (Inr p)
    obtain c it' where p: "p = (c, it')" by (cases p)
    from 1[OF Inr[unfolded p] refl] have "chained (seq_num it') (byte_offset it') (chunks_of it')"
      by simp
    with Inr p next_chunk_shape[of it c it'] show ?thesis
      by (subst chunks_of_unfold) simp
  qed
qed


lemma chained_nth:
  "chained s b cs \<Longrightarrow> i < length cs \<Longrightarrow>
   chunk_seq (cs ! i) = s + int i \<and>
   chunk_start (cs ! i) = b + int (length (concat (map chunk_payload (take i cs)))) \<and>
   chunk_end (cs ! i) = b + int (length (concat (map chunk_payload (take (Suc i) cs)))) \<and>
   chunk_payload (cs ! i) \<noteq> []"
proof (induction cs arbitrary: s b i)
  case Nil
  then show ?case by simp
next
  case (Cons c cs)
  show ?case
  proof (cases i)
    case 0
    with Cons.prems show ?thesis by simp
  next
    case (Suc j)
    with Cons.prems have "chained (s + 1) (chunk_end c) cs" "j < length cs" by auto
    from Cons.IH[OF this] Cons.prems Suc show ?thesis by auto
  qed
qed

lemma concat_payloads:
  "filelike it = FileHandle bs \<Longrightarrow> chunk_size it \<noteq> 0 \<Longrightarrow>
   concat (map chunk_payload (chunks_of it)) = bs"
proof (induction it arbitrary: bs rule: iterate.induct)
  case (1 it)
  show ?case
  proof (cases "ChunkIterator_next it")
    case (Inl e)
    with "1.prems" have "bs = []"
      by (auto simp: next_FileHandle Let_def split: if_splits)
    with Inl show ?thesis by (subst chunks_of_unfold) simp
  next
    case (Inr p)
    obtain c it' where p: "p = (c, it')" by (cases p)
    let ?rest = "if chunk_size it < 0 then [] else drop (nat (chunk_size it)) bs"
    from Inr p "1.prems" have f': "filelike it' = FileHandle ?rest" "chunk_size it' \<noteq> 0"
      and c: "chunk_payload c @ ?rest = bs"
      by (auto simp: next_FileHandle Let_def chunk_payload_def split: if_splits)
    from "1.IH"[OF Inr[unfolded p] refl f'] c Inr p show ?thesis
      by (subst chunks_of_unfold) simp
  qed
qed

lemma payload_bounded:
  "filelike it = FileHandle bs \<Longrightarrow> 0 \<le> chunk_size it \<Longrightarrow> c \<in> set (chunks_of it) \<Longrightarrow>
   int (length (chunk_payload c)) \<le> chunk_size it"
proof (induction it arbitrary: bs rule: iterate.induct)
  case (1 it)
  show ?case
  proof (cases "ChunkIterator_next it")
    case (Inl e)
    with "1.prems"(3) show ?thesis by (subst (asm) chunks_of_unfold) simp
  next
    case (Inr p)
    obtain c' it' where p: "p = (c', it')" by (cases p)
    from Inr p "1.prems"(1,2) have f': "filelike it' = FileHandle (drop (nat (chunk_size it)) bs)"
      "0 \<le> chunk_size it'" "chunk_size it' = chunk_size it"
      and c': "int (length (chunk_payload c')) \<le> chunk_size it"
      by (auto simp: next_FileHandle Let_def chunk_payload_def split: if_splits)
    from "1.prems"(3) Inr p have "c = c' \<or> c \<in> set (chunks_of it')"
      by (subst (asm) chunks_of_unfold) simp
    with "1.IH"[OF Inr[unfolded p] refl f'(1,2)] c' f'(3) show ?thesis by auto
  qed
qed

lemma end_signal_FileHandle:
  "filelike it = FileHandle bs \<Longrightarrow> end_signal it = StopIteration"
proof (induction it arbitrary: bs rule: iterate.induct)
  case (1 it)
  show ?case
  proof (cases "ChunkIterator_next it")
    case (Inl e)
    with "1.prems" have "e = StopIteration"
      by (auto simp: next_FileHandle Let_def split: if_splits)
    with Inl show ?thesis by (subst end_signal_unfold) simp
  next
    case (Inr p)
    obtain c it' where p: "p = (c, it')" by (cases p)
    from Inr p "1.prems" obtain bs' where "filelike it' = FileHandle bs'"
      by (auto simp: next_FileHandle Let_def split: if_splits)
    from "1.IH"[OF Inr[unfolded p] refl this] Inr p show ?thesis
      by (subst end_signal_unfold) simp
  qed
qed

lemma ceil_div_step:
  fixes n L :: nat
  assumes n: "1 \<le> n" and L: "0 < L"
  shows "Suc ((L - n + n - 1) div n) = (L + n - 1) div n"
proof (cases "n \<le> L")
  case True
  have a: "L - n + n - 1 = L - 1" using True by simp
  have b: "L + n - 1 = (L - 1) + n" using L by simp
  have "0 < n" using n by simp
  then have "((L - 1) + n) div n = Suc ((L - 1) div n)" by (simp add: div_add_self2)
  with a b show ?thesis by simp
next
  case False
  have "n * 1 \<le> L + n - 1" using L by simp
  moreover have "L + n - 1 < n * Suc 1" using False L by simp
  ultimately have "(L + n - 1) div n = 1" by (rule div_nat_eqI)
  moreover have "(L - n + n - 1) div n = 0" using False n by simp
  ultimately show ?thesis by simp
qed

lemma ceil_div_exact:
  fixes n L :: nat
  assumes n: "1 \<le> n" and d: "n dvd L"
  shows "(L + n - 1) div n = L div n"
proof -
  from d obtain k where k: "L = n * k" by (auto simp: dvd_def)
  have "n * k \<le> n * k + n - 1" using n by simp
  moreover have "n * k + n - 1 < n * Suc k" using n by simp
  ultimately have "(n * k + n - 1) div n = k" by (rule div_nat_eqI)
  with k n show ?thesis by simp
qed

lemma length_chunks_of:
  "filelike it = FileHandle bs \<Longrightarrow> 1 \<le> chunk_size it \<Longrightarrow>
   length (chunks_of it) = (length bs + nat (chunk_size it) - 1) div nat (chunk_size it)"
proof (induction it arbitrary: bs rule: iterate.induct)
  case (1 it)
  let ?n = "nat (chunk_size it)"
  from "1.prems" have n: "1 \<le> ?n" by simp
  show ?case
  proof (cases "ChunkIterator_next it")
    case (Inl e)
    with "1.prems" have "bs = []"
      by (auto simp: next_FileHandle Let_def split: if_splits)
    with Inl n show ?thesis by (subst chunks_of_unfold) simp
  next
    case (Inr p)
    obtain c it' where p: "p = (c, it')" by (cases p)
    from Inr p "1.prems" have f': "filelike it' = FileHandle (drop ?n bs)"
      "1 \<le> chunk_size it'" and cs: "chunk_size it' = chunk_size it" and ne: "0 < length bs"
      by (auto simp: next_FileHandle Let_def split: if_splits)
    have "length (chunks_of it') = (length (drop ?n bs) + nat (chunk_size it') - 1) div nat (chunk_size it')"
      by (rule "1.IH"[OF Inr[unfolded p] refl f'])
    then have IH: "length (chunks_of it') = (length bs - ?n + ?n - 1) div ?n"
      by (simp only: cs length_drop)
    have "length (chunks_of it) = Suc (length (chunks_of it'))"
      using Inr p by (subst chunks_of_unfold) simp
    also have "\<dots> = Suc ((length bs - ?n + ?n - 1) div ?n)" by (simp only: IH)
    also have "\<dots> = (length bs + ?n - 1) div ?n" by (rule ceil_div_step[OF n ne])
    finally show ?thesis .
  qed
qed

subsection \<open>Claims about ChunkIterator\<close>

text \<open>
  Claim C2. For a stream of \<open>L\<close> bytes and a chunk size \<open>C \<ge> 1\<close>, the chunks a
  ChunkIterator produces are numbered \<open>0..k-1\<close> in read order; each range
  \<open>[chunk_start, chunk_end)\<close> is as long as its payload, which is not empty and at
  most \<open>C\<close> bytes; each chunk ends where the next one starts; the first starts at
  0 and the last ends at \<open>L\<close> (no chunk at all when \<open>L = 0\<close>); and the payloads,
  concatenated, are the stream.
\<close>

theorem chunk_ranges_partition_stream:
  "1 \<le> C \<Longrightarrow>
   (let cs = chunks_of (ChunkIterator_init (FileHandle bs) C) in
      map chunk_seq cs = map int [0..<length cs] \<and>
      (\<forall>i<length cs.
          chunk_end (cs ! i) - chunk_start (cs ! i) = int (length (chunk_payload (cs ! i))) \<and>
          0 < length (chunk_payload (cs ! i)) \<and>
          int (length (chunk_payload (cs ! i))) \<le> C) \<and>
      (\<forall>i. Suc i < length cs \<longrightarrow> chunk_end (cs ! i) = chunk_start (cs ! Suc i)) \<and>
      (if bs = [] then cs = []
       else cs \<noteq> [] \<and> chunk_start (hd cs) = 0 \<and> chunk_end (last cs) = int (length bs)) \<and>
      concat (map chunk_payload cs) = bs)"
proof -
  assume C: "1 \<le> C"
  define it where "it = ChunkIterator_init (FileHandle bs) C"
  define cs where "cs = chunks_of it"
  have it: "filelike it = FileHandle bs" "chunk_size it = C" "seq_num it = 0" "byte_offset it = 0"
    by (simp_all add: it_def ChunkIterator_init_def)
  have ch: "chained 0 0 cs"
    using chained_chunks_of[of it] by (simp add: it cs_def)
  have cat: "concat (map chunk_payload cs) = bs"
    unfolding cs_def using it C by (intro concat_payloads) auto
  have nth: "chunk_seq (cs ! i) = int i"
    "chunk_start (cs ! i) = int (length (concat (map chunk_payload (take i cs))))"
    "chunk_end (cs ! i) = int (length (concat (map chunk_payload (take (Suc i) cs))))"
    "chunk_payload (cs ! i) \<noteq> []" if "i < length cs" for i
    using chained_nth[OF ch that] by simp_all
  have seqs: "map chunk_seq cs = map int [0..<length cs]"
    by (rule nth_equalityI) (simp_all add: nth)
  have bound: "int (length (chunk_payload (cs ! i))) \<le> C" if "i < length cs" for i
  proof -
    from that have "cs ! i \<in> set (chunks_of it)" by (simp add: cs_def)
    from payload_bounded[OF it(1) _ this] C it(2) show ?thesis by simp
  qed
  have len: "chunk_end (cs ! i) - chunk_start (cs ! i) = int (length (chunk_payload (cs ! i)))"
    if "i < length cs" for i
    using that by (simp add: nth take_Suc_conv_app_nth)
  have contig: "chunk_end (cs ! i) = chunk_start (cs ! Suc i)" if "Suc i < length cs" for i
    using that by (simp add: nth)
  have ends: "if bs = [] then cs = []
       else cs \<noteq> [] \<and> chunk_start (hd cs) = 0 \<and> chunk_end (last cs) = int (length bs)"
  proof (cases "bs = []")
    case True
    have "cs = []"
    proof (rule ccontr)
      assume "cs \<noteq> []"
      then have "0 < length cs" by simp
      from nth(4)[OF this] have "chunk_payload (cs ! 0) \<noteq> []" .
      moreover from \<open>cs \<noteq> []\<close> have "chunk_payload (cs ! 0) \<in> set (map chunk_payload cs)"
        by (simp add: nth_mem)
      ultimately have "concat (map chunk_payload cs) \<noteq> []" by auto
      with cat True show False by simp
    qed
    with True show ?thesis by simp
  next
    case False
    with cat have ne: "cs \<noteq> []" by auto
    then have l: "length cs - 1 < length cs" "0 < length cs" by simp_all
    have "chunk_start (hd cs) = 0" using nth(2)[OF l(2)] ne by (simp add: hd_conv_nth)
    moreover have "chunk_end (last cs) = int (length bs)"
      using nth(3)[OF l(1)] ne cat by (simp add: last_conv_nth)
    ultimately show ?thesis using False ne by simp
  qed
  show ?thesis
    unfolding Let_def it_def[symmetric] cs_def[symmetric]
    using seqs bound len contig ends cat nth(4) by auto
qed


theorem chunk_ranges_partition_stream_witness:
  "(1::int) \<le> 2 \<and>
   chunks_of (ChunkIterator_init (FileHandle [1, 2, 3, 4, 5]) 2) =
     [(0, 0, 2, [1, 2]), (1, 2, 4, [3, 4]), (2, 4, 5, [5])] \<and>
   (let cs = chunks_of (ChunkIterator_init (FileHandle [1, 2, 3, 4, 5]) 2) in
      map chunk_seq cs = map int [0..<length cs] \<and>
      (\<forall>i<length cs.
          chunk_end (cs ! i) - chunk_start (cs ! i) = int (length (chunk_payload (cs ! i))) \<and>
          0 < length (chunk_payload (cs ! i)) \<and>
          int (length (chunk_payload (cs ! i))) \<le> 2) \<and>
      (\<forall>i. Suc i < length cs \<longrightarrow> chunk_end (cs ! i) = chunk_start (cs ! Suc i)) \<and>
      (if [1, 2, 3, 4, 5 :: byte] = [] then cs = []
       else cs \<noteq> [] \<and> chunk_start (hd cs) = 0 \<and>
            chunk_end (last cs) = int (length [1, 2, 3, 4, 5 :: byte])) \<and>
      concat (map chunk_payload cs) = [1, 2, 3, 4, 5])"
proof -
  have ev: "chunks_of (ChunkIterator_init (FileHandle [1, 2, 3, 4, 5]) 2) =
     [(0, 0, 2, [1, 2]), (1, 2, 4, [3, 4]), (2, 4, 5, [5])]"
    by code_simp
  have h: "(1::int) \<le> 2" by simp
  from chunk_ranges_partition_stream[OF h, of "[1, 2, 3, 4, 5]"] ev h show ?thesis
    by blast
qed

text \<open>
  Claim C3. When the stream's length is a multiple of the chunk size \<open>C \<ge> 1\<close>, the
  iterator produces exactly \<open>L div C\<close> chunks and the iteration ends with
  StopIteration. For every iterator, no chunk produced has an empty payload, and
  \<^verbatim>\<open>__next__\<close> raises StopIteration exactly when the read returns zero bytes.
\<close>

theorem end_of_stream_on_empty_read:
  "(1 \<le> C \<and> nat C dvd length bs \<longrightarrow>
      length (chunks_of (ChunkIterator_init (FileHandle bs) C)) = length bs div nat C \<and>
      end_signal (ChunkIterator_init (FileHandle bs) C) = StopIteration) \<and>
   (\<forall>c \<in> set (chunks_of it). chunk_payload c \<noteq> []) \<and>
   (ChunkIterator_next it = Inl StopIteration \<longleftrightarrow>
      (\<exists>f'. file_read (filelike it) (chunk_size it) = Inr ([], f')))"
proof (intro conjI impI ballI)
  assume a: "1 \<le> C \<and> nat C dvd length bs"
  let ?it = "ChunkIterator_init (FileHandle bs) C"
  have it: "filelike ?it = FileHandle bs" "chunk_size ?it = C"
    by (simp_all add: ChunkIterator_init_def)
  from a have "1 \<le> nat C" by linarith
  moreover from a have "nat C dvd length bs" by blast
  ultimately have n: "1 \<le> nat C" "nat C dvd length bs" .
  have "length (chunks_of ?it) = (length bs + nat C - 1) div nat C"
    using length_chunks_of[OF it(1)] a it(2) by simp
  also have "\<dots> = length bs div nat C" by (rule ceil_div_exact[OF n])
  finally show "length (chunks_of ?it) = length bs div nat C" .
  show "end_signal ?it = StopIteration" by (rule end_signal_FileHandle[OF it(1)])
next
  fix c assume "c \<in> set (chunks_of it)"
  then obtain i where i: "i < length (chunks_of it)" "c = chunks_of it ! i"
    by (auto simp: in_set_conv_nth)
  from chained_nth[OF chained_chunks_of[of it] i(1)] i(2) show "chunk_payload c \<noteq> []" by simp
next
  show "ChunkIterator_next it = Inl StopIteration \<longleftrightarrow>
      (\<exists>f'. file_read (filelike it) (chunk_size it) = Inr ([], f'))"
    by (rule next_StopIteration_iff)
qed

theorem end_of_stream_on_empty_read_witness:
  "(1::int) \<le> 2 \<and> nat 2 dvd length [1, 2, 3, 4 :: byte] \<and>
   chunks_of (ChunkIterator_init (FileHandle [1, 2, 3, 4]) 2) =
     [(0, 0, 2, [1, 2]), (1, 2, 4, [3, 4])] \<and>
   length (chunks_of (ChunkIterator_init (FileHandle [1, 2, 3, 4]) 2)) =
     length [1, 2, 3, 4 :: byte] div nat 2 \<and>
   end_signal (ChunkIterator_init (FileHandle [1, 2, 3, 4]) 2) = StopIteration \<and>
   chunk_payload (1, 2, 4, [3, 4]) \<noteq> [] \<and>
   ChunkIterator_next \<lparr>filelike = FileHandle [], chunk_size = 2, seq_num = 2, byte_offset = 4\<rparr>
     = Inl StopIteration"
proof -
  let ?it = "ChunkIterator_init (FileHandle [1, 2, 3, 4]) 2"
  let ?it' = "\<lparr>filelike = FileHandle [], chunk_size = 2, seq_num = 2, byte_offset = 4\<rparr>"
  have ev: "chunks_of ?it = [(0, 0, 2, [1, 2]), (1, 2, 4, [3, 4])]"
    by code_simp
  have h: "(1::int) \<le> 2 \<and> nat 2 dvd length [1, 2, 3, 4 :: byte]" by simp
  have r: "\<exists>f'. file_read (filelike ?it') (chunk_size ?it') = Inr ([], f')" by simp
  have m: "(1, 2, 4, [3, 4]) \<in> set (chunks_of ?it)" by (simp add: ev)
  from end_of_stream_on_empty_read[of 2 "[1, 2, 3, 4]" ?it] h m
  have a: "length (chunks_of ?it) = length [1, 2, 3, 4 :: byte] div nat 2"
    "end_signal ?it = StopIteration" "chunk_payload (1, 2, 4, [3, 4]) \<noteq> []"
    by blast+
  from end_of_stream_on_empty_read[of 2 "[1, 2, 3, 4]" ?it'] r
  have b: "ChunkIterator_next ?it' = Inl StopIteration" by blast
  from a b ev h show ?thesis by blast
qed

subsection \<open>Properties of the pool and of the pipeline\<close>

lemma pool_post_finished: "pool_finished st \<Longrightarrow> pool_post fn st st 0"
  by (auto simp: pool_post_def pool_finished_def future_def)

lemma remove_nth_mset:
  "i < length xs \<Longrightarrow> mset (take i xs @ drop (Suc i) xs) + {#xs ! i#} = mset xs"
proof -
  assume "i < length xs"
  then have "xs = take i xs @ xs ! i # drop (Suc i) xs" by (rule id_take_nth_drop)
  then have "mset xs = mset (take i xs @ xs ! i # drop (Suc i) xs)" by simp
  then show ?thesis by simp
qed

lemma remove_nth_set: "set (take i xs @ drop (Suc i) xs) \<subseteq> set xs"
  using set_take_subset[of i xs] set_drop_subset[of "Suc i" xs] by auto

lemma pool_post_admit:
  assumes f: "first_error st = None" "\<not> exhausted st"
    and p: "pool_post fn (admit fn st) st' j"
  shows "\<exists>j'. pool_post fn st st' j'"
proof (cases "ChunkIterator_next (reader st)")
  case (Inl e0)
  have fut: "future st = []"
    using Inl f by (simp add: future_def) (subst chunks_of_unfold, simp)
  have sig: "end_signal (reader st) = e0"
    using Inl by (subst end_signal_unfold) simp
  show ?thesis
  proof (cases "e0 = StopIteration")
    case True
    with Inl have a: "admit fn st = st\<lparr>exhausted := True\<rparr>" by (simp add: admit_def)
    from p show ?thesis
      unfolding a pool_post_def using fut sig True f
      by (intro exI[of _ 0]) (auto simp: future_def)
  next
    case False
    with Inl have a: "admit fn st = st\<lparr>first_error := Some e0\<rparr>" by (simp add: admit_def)
    from p show ?thesis
      unfolding a pool_post_def using fut sig False f
      by (intro exI[of _ 0]) (auto simp: future_def)
  qed
next
  case (Inr p')
  obtain c it' where p': "p' = (c, it')" by (cases p')
  obtain r ev where rev: "fn c = (r, ev)" by (cases "fn c")
  from Inr p' rev have a: "admit fn st =
      st\<lparr>reader := it', in_flight := in_flight st @ [r], calls := calls st @ ev\<rparr>"
    by (simp add: admit_def)
  have fut: "future st = c # future (admit fn st)"
    using Inr p' f unfolding a by (simp add: future_def) (subst chunks_of_unfold, simp)
  have sig: "end_signal (reader st) = end_signal it'"
    using Inr p' by (subst end_signal_unfold) simp
  have fl: "first_error (admit fn st) = None" "\<not> exhausted (admit fn st)"
    "in_flight (admit fn st) = in_flight st @ [r]" "calls (admit fn st) = calls st @ ev"
    "completed (admit fn st) = completed st" "reader (admit fn st) = it'"
    using f by (simp_all add: a)
  from p show ?thesis
    unfolding pool_post_def fut using rev sig f fl
    by (intro exI[of _ "Suc j"]) auto
qed

lemma pool_post_finish:
  assumes i: "i < length (in_flight st)"
    and p: "pool_post fn (finish i st) st' j"
  shows "\<exists>j'. pool_post fn st st' j'"
proof (cases "in_flight st ! i")
  case (Inl e0)
  let ?rest = "take i (in_flight st) @ drop (Suc i) (in_flight st)"
  from Inl have a: "finish i st = st\<lparr>in_flight := ?rest,
      first_error := (case first_error st of None \<Rightarrow> Some e0 | Some e1 \<Rightarrow> Some e1)\<rparr>"
    by (simp add: finish_def Let_def)
  have mem: "Inl e0 \<in> set (in_flight st)" using i Inl by (metis nth_mem)
  have sub: "set ?rest \<subseteq> set (in_flight st)" by (rule remove_nth_set)
  from p show ?thesis
    unfolding a pool_post_def using mem sub
    by (intro exI[of _ 0]) (auto simp: future_def split: option.splits)
next
  case (Inr x)
  let ?rest = "take i (in_flight st) @ drop (Suc i) (in_flight st)"
  from Inr have a: "finish i st = st\<lparr>in_flight := ?rest,
      completed := (if first_error st = None then completed st @ [x] else completed st)\<rparr>"
    by (simp add: finish_def Let_def)
  have sub: "set ?rest \<subseteq> set (in_flight st)" by (rule remove_nth_set)
  have ms: "mset ?rest + {#Inr x#} = mset (in_flight st)"
    using remove_nth_mset[OF i] Inr by simp
  have fut: "future (finish i st) = future st" by (simp add: a future_def)
  from p show ?thesis
    unfolding pool_post_def fut using sub ms
    by (intro exI[of _ j]) (auto simp: a split: if_splits)
qed

lemma pool_run_post: "\<exists>j. pool_post fn st (pool_run N fn sched st) j"
proof (induction N fn sched st rule: pool_run.induct)
  case (1 N fn sched st)
  show ?case
  proof (cases "pool_finished st")
    case True
    then have "pool_run N fn sched st = st" by (subst pool_run.simps) simp
    with pool_post_finished[OF True] show ?thesis by auto
  next
    case False
    show ?thesis
    proof (cases "next_action N sched st")
      case Admit
      from False Admit have r: "pool_run N fn sched st = pool_run N fn (tl sched) (admit fn st)"
        by (subst pool_run.simps) simp
      from "1.IH"(1)[OF False Admit] obtain j where
        "pool_post fn (admit fn st) (pool_run N fn (tl sched) (admit fn st)) j" ..
      with next_action_Admit[OF False Admit] show ?thesis
        unfolding r by (auto intro: pool_post_admit)
    next
      case (Finish i)
      from False Finish have r: "pool_run N fn sched st = pool_run N fn (tl sched) (finish i st)"
        by (subst pool_run.simps) simp
      from "1.IH"(2)[OF False Finish] obtain j where
        "pool_post fn (finish i st) (pool_run N fn (tl sched) (finish i st)) j" ..
      with next_action_Finish[OF Finish] show ?thesis
        unfolding r by (auto intro: pool_post_finish)
    qed
  qed
qed

lemma sendit_events: "snd (sendit R self c) = [chunk_event self c]"
  by (cases c)
     (auto simp: sendit_def Source_chunk_def chunk_event_def chunk_seq_def chunk_start_def
        chunk_payload_def split: sum.splits)

lemma sendit_result:
  "fst (sendit R self c) =
     (case chunk_reply R self (chunk_seq c) (chunk_start c) (chunk_payload c) of
        Inl e \<Rightarrow> Inl e | Inr ack \<Rightarrow> Inr (completion_of c))"
  by (cases c)
     (auto simp: sendit_def Source_chunk_def completion_of_def chunk_seq_def chunk_start_def
        chunk_end_def chunk_payload_def split: sum.splits)

lemma sendit_failed:
  "fst (sendit R self c) = Inl e \<longleftrightarrow>
   chunk_reply R self (chunk_seq c) (chunk_start c) (chunk_payload c) = Inl e"
  by (simp add: sendit_result split: sum.splits)

lemma sendit_accepted:
  "chunk_accepted R self c \<Longrightarrow> fst (sendit R self c) = Inr (completion_of c)"
  by (simp add: sendit_result chunk_accepted_def)

lemma not_accepted_failed:
  "\<not> chunk_accepted R self c \<Longrightarrow> \<exists>e. fst (sendit R self c) = Inl e"
  by (cases "chunk_reply R self (chunk_seq c) (chunk_start c) (chunk_payload c)")
     (auto simp: sendit_result chunk_accepted_def)

text \<open>What the pool returns, for at least one worker.\<close>

lemma pool_map_sendit:
  assumes N: "1 \<le> N"
  shows "\<exists>j \<le> length (chunks_of it).
     snd (pool_map N (sendit R self) sched it) = map (chunk_event self) (take j (chunks_of it)) \<and>
     (\<forall>e. fst (pool_map N (sendit R self) sched it) = Inl e \<longrightarrow>
        (\<exists>c \<in> set (take j (chunks_of it)).
            chunk_reply R self (chunk_seq c) (chunk_start c) (chunk_payload c) = Inl e) \<or>
        (e \<noteq> StopIteration \<and> end_signal it = e)) \<and>
     (\<forall>results. fst (pool_map N (sendit R self) sched it) = Inr results \<longrightarrow>
        j = length (chunks_of it) \<and> (\<forall>c \<in> set (chunks_of it). chunk_accepted R self c) \<and>
        mset results = mset (map completion_of (chunks_of it)) \<and>
        end_signal it = StopIteration)"
proof -
  let ?ini = "\<lparr>reader = it, exhausted = False, in_flight = [], completed = [],
                first_error = None, calls = []\<rparr> :: completion pool_state"
  let ?fin = "pool_run N (sendit R self) sched ?ini"
  let ?cs = "chunks_of it"
  have pm: "pool_map N (sendit R self) sched it =
      (case first_error ?fin of Some e \<Rightarrow> Inl e | None \<Rightarrow> Inr (completed ?fin), calls ?fin)"
    using N by (simp add: pool_map_def Let_def)
  have fut: "future ?ini = ?cs" by (simp add: future_def)
  from pool_run_post[of "sendit R self" ?ini N sched] obtain j where
    "pool_post (sendit R self) ?ini ?fin j" ..
  then have j: "j \<le> length ?cs"
    and c: "calls ?fin = map (chunk_event self) (take j ?cs)"
    and e: "\<And>e. first_error ?fin = Some e \<Longrightarrow>
        (\<exists>c \<in> set (take j ?cs). fst (sendit R self c) = Inl e) \<or>
        (e \<noteq> StopIteration \<and> end_signal it = e)"
    and s: "first_error ?fin = None \<Longrightarrow> j = length ?cs \<and>
        mset (map Inr (completed ?fin)) = mset (map (\<lambda>c. fst (sendit R self c)) ?cs) \<and>
        end_signal it = StopIteration"
    unfolding pool_post_def fut by (auto simp: sendit_events)
  have ok: "j = length ?cs \<and> (\<forall>c \<in> set ?cs. chunk_accepted R self c) \<and>
        mset (completed ?fin) = mset (map completion_of ?cs) \<and> end_signal it = StopIteration"
    if n: "first_error ?fin = None"
  proof -
    from s[OF n] have m: "mset (map Inr (completed ?fin)) = mset (map (\<lambda>c. fst (sendit R self c)) ?cs)"
      and r: "j = length ?cs" "end_signal it = StopIteration" by simp_all
    have acc: "chunk_accepted R self c" if "c \<in> set ?cs" for c
    proof (rule ccontr)
      assume "\<not> chunk_accepted R self c"
      then obtain e where "fst (sendit R self c) = Inl e" using not_accepted_failed by blast
      with that have "Inl e \<in> set (map (\<lambda>c. fst (sendit R self c)) ?cs)" by force
      then have "Inl e \<in> set_mset (mset (map (\<lambda>c. fst (sendit R self c)) ?cs))" by simp
      with m have "Inl e \<in> set (map Inr (completed ?fin))" by (metis set_mset_mset)
      then show False by auto
    qed
    then have mp: "map (\<lambda>c. fst (sendit R self c)) ?cs = map Inr (map completion_of ?cs)"
      by (simp add: sendit_accepted)
    let ?inr = "Inr :: completion \<Rightarrow> error + completion"
    have "mset (map ?inr (completed ?fin)) = mset (map ?inr (map completion_of ?cs))"
      using m unfolding mp .
    then have "image_mset projr (mset (map ?inr (completed ?fin))) =
        image_mset projr (mset (map ?inr (map completion_of ?cs)))"
      by (rule arg_cong)
    then have "mset (completed ?fin) = mset (map completion_of ?cs)"
      by (simp add: multiset.map_comp comp_def)
    with r acc show ?thesis by blast
  qed
  show ?thesis
    using j c e ok unfolding pm
    by (intro exI[of _ j]) (auto simp: sendit_failed split: option.splits)
qed

lemma sorted_le_last: "sorted xs \<Longrightarrow> x \<in> set xs \<Longrightarrow> x \<le> last xs"
  for xs :: "'a::linorder list"
  by (induction xs) auto

lemma chained_seq_inj:
  assumes "chained s b cs" "i < length cs" "j < length cs" "chunk_seq (cs ! i) = chunk_seq (cs ! j)"
  shows "i = j"
proof -
  from chained_nth[OF assms(1,2)] have a: "chunk_seq (cs ! i) = s + int i" by blast
  from chained_nth[OF assms(1,3)] have b: "chunk_seq (cs ! j) = s + int j" by blast
  from assms(4) have "s + int i = s + int j" by (simp only: a b)
  then show ?thesis by simp
qed

lemma last_by_seq:
  assumes ch: "chained s b cs" and ne: "cs \<noteq> []"
    and m: "mset results = mset (map completion_of cs)"
  shows "py_last (sort_key (\<lambda>x. fst x) results) = Inr (completion_of (last cs))"
proof -
  let ?ys = "sort_key (\<lambda>x. fst x) results"
  have sr: "set ?ys = set results" by simp
  have st: "set results = completion_of ` set cs"
    using mset_eq_setD[OF m] by simp
  have "length ?ys = length cs" using mset_eq_length[OF m] by simp
  then have yne: "?ys \<noteq> []" using ne by (metis length_0_conv)
  then have "last ?ys \<in> set ?ys" by (rule last_in_set)
  then have "last ?ys \<in> completion_of ` set cs" unfolding sr st .
  then obtain c where c: "c \<in> set cs" "last ?ys = completion_of c" by blast
  then obtain i where i: "i < length cs" "c = cs ! i" by (auto simp: in_set_conv_nth)
  let ?k = "length cs - 1"
  from ne have k: "?k < length cs" by simp
  have "completion_of (cs ! ?k) \<in> set ?ys"
    unfolding sr st by (intro imageI nth_mem k)
  then have "fst (completion_of (cs ! ?k)) \<in> (\<lambda>x. fst x) ` set ?ys" by (rule imageI)
  then have "fst (completion_of (cs ! ?k)) \<in> set (map (\<lambda>x. fst x) ?ys)"
    by (simp only: set_map)
  moreover have "sorted (map (\<lambda>x. fst x) ?ys)" by (rule sorted_sort_key)
  ultimately have "fst (completion_of (cs ! ?k)) \<le> last (map (\<lambda>x. fst x) ?ys)"
    by (rule sorted_le_last[rotated])
  also have "\<dots> = fst (last ?ys)" using yne by (simp add: last_map)
  finally have le: "chunk_seq (cs ! ?k) \<le> chunk_seq (cs ! i)"
    by (simp add: c i completion_of_def)
  from chained_nth[OF ch k] have a: "chunk_seq (cs ! ?k) = s + int ?k" by blast
  from chained_nth[OF ch i(1)] have b: "chunk_seq (cs ! i) = s + int i" by blast
  from le have "s + int ?k \<le> s + int i" by (simp only: a b)
  with i(1) have "i = ?k" by simp
  with c i ne have "last ?ys = completion_of (last cs)" by (simp add: last_conv_nth)
  with yne show ?thesis by (simp add: py_last_def)
qed

lemma conclude_upload_nonempty:
  assumes "chained s b cs" "cs \<noteq> []" "mset results = mset (map completion_of cs)"
  shows "conclude_upload R self results =
     (case commit_reply R self (chunk_seq (last cs)) (chunk_end (last cs)) of
        Inl e \<Rightarrow> (Inl e, [Commit self (chunk_seq (last cs)) (chunk_end (last cs))])
      | Inr ack \<Rightarrow> (show_reply R self,
          [Commit self (chunk_seq (last cs)) (chunk_end (last cs)), Show self]))"
  by (simp add: conclude_upload_def last_by_seq[OF assms] completion_of_def)

lemma conclude_upload_empty: "conclude_upload R self [] = (Inl IndexError, [])"
  by (simp add: conclude_upload_def py_last_def)

lemma chunked_bytes_initiate_failed:
  "initiate_reply R self ct = Inl e \<Longrightarrow>
   Source_chunked_bytes R sched self fh ct = (Inl e, [Initiate self ct])"
  by (simp add: Source_chunked_bytes_def Source_initiate_def)

lemma chunked_bytes_initiated:
  "initiate_reply R self ct = Inr init \<Longrightarrow>
   Source_chunked_bytes R sched self fh ct =
     (case pool_map (preferred_upload_parallelism init) (sendit R self) sched
             (ChunkIterator_init fh (preferred_chunk_size init)) of
        (Inl e, ev) \<Rightarrow> (Inl e, Initiate self ct # ev)
      | (Inr results, ev) \<Rightarrow>
          (case conclude_upload R self results of (r, ev') \<Rightarrow> (r, Initiate self ct # ev @ ev')))"
  by (auto simp: Source_chunked_bytes_def Source_initiate_def Source_commit_def Source_show_def
      conclude_upload_def Let_def split: sum.splits prod.splits)

lemma pool_map_no_workers: "N < 1 \<Longrightarrow> pool_map N fn sched it = (Inl ValueError, [])"
  by (simp add: pool_map_def)

lemma chunk_calls_events [simp]:
  "chunk_calls (map (chunk_event self) cs) =
     map (\<lambda>c. (self, chunk_seq c, chunk_start c, chunk_payload c)) cs"
  by (induction cs) (simp_all add: chunk_event_def)

lemma other_calls_events [simp]:
  "commit_calls (map (chunk_event self) cs) = []"
  "show_calls (map (chunk_event self) cs) = []"
  "initiate_calls (map (chunk_event self) cs) = []"
  "toggle_calls (map (chunk_event self) cs) = []"
  by (induction cs) (simp_all add: chunk_event_def)

lemma calls_append [simp]:
  "chunk_calls (xs @ ys) = chunk_calls xs @ chunk_calls ys"
  "commit_calls (xs @ ys) = commit_calls xs @ commit_calls ys"
  "show_calls (xs @ ys) = show_calls xs @ show_calls ys"
  "initiate_calls (xs @ ys) = initiate_calls xs @ initiate_calls ys"
  "toggle_calls (xs @ ys) = toggle_calls xs @ toggle_calls ys"
  by (induction xs rule: chunk_calls.induct; simp)+

text \<open>The shape of every run of the pipeline once initiate has answered.\<close>

lemma chunked_bytes_run:
  fixes fh :: file_object
  assumes init: "initiate_reply R self ct = Inr init"
    and N: "1 \<le> preferred_upload_parallelism init"
  defines "cs \<equiv> chunks_of (ChunkIterator_init fh (preferred_chunk_size init))"
  shows "(\<exists>j e. j \<le> length cs \<and>
            Source_chunked_bytes R sched self fh ct =
              (Inl e, Initiate self ct # map (chunk_event self) (take j cs)) \<and>
            ((\<exists>c \<in> set (take j cs).
                chunk_reply R self (chunk_seq c) (chunk_start c) (chunk_payload c) = Inl e) \<or>
             (e \<noteq> StopIteration \<and>
              end_signal (ChunkIterator_init fh (preferred_chunk_size init)) = e))) \<or>
         ((\<forall>c \<in> set cs. chunk_accepted R self c) \<and>
          end_signal (ChunkIterator_init fh (preferred_chunk_size init)) = StopIteration \<and>
          (\<exists>results. mset results = mset (map completion_of cs) \<and>
             Source_chunked_bytes R sched self fh ct =
               (case conclude_upload R self results of
                  (r, ev') \<Rightarrow> (r, Initiate self ct # map (chunk_event self) cs @ ev'))))"
proof -
  let ?it = "ChunkIterator_init fh (preferred_chunk_size init)"
  let ?pm = "pool_map (preferred_upload_parallelism init) (sendit R self) sched ?it"
  from pool_map_sendit[OF N, of ?it R self sched] obtain j where
    j: "j \<le> length cs" and ev: "snd ?pm = map (chunk_event self) (take j cs)"
    and er: "\<And>e. fst ?pm = Inl e \<Longrightarrow>
        (\<exists>c \<in> set (take j cs).
            chunk_reply R self (chunk_seq c) (chunk_start c) (chunk_payload c) = Inl e) \<or>
        (e \<noteq> StopIteration \<and> end_signal ?it = e)"
    and ok: "\<And>results. fst ?pm = Inr results \<Longrightarrow>
        j = length cs \<and> (\<forall>c \<in> set cs. chunk_accepted R self c) \<and>
        mset results = mset (map completion_of cs) \<and> end_signal ?it = StopIteration"
    unfolding cs_def by blast
  show ?thesis
  proof (cases "fst ?pm")
    case (Inl e)
    then have "?pm = (Inl e, map (chunk_event self) (take j cs))"
      using ev by (cases ?pm) simp
    then have "Source_chunked_bytes R sched self fh ct =
        (Inl e, Initiate self ct # map (chunk_event self) (take j cs))"
      by (simp add: chunked_bytes_initiated[OF init])
    with er[OF Inl] j show ?thesis by blast
  next
    case (Inr results)
    from ok[OF Inr] have jj: "j = length cs" and acc: "\<forall>c \<in> set cs. chunk_accepted R self c"
      and m: "mset results = mset (map completion_of cs)"
      and sig: "end_signal ?it = StopIteration" by simp_all
    from Inr ev jj have "?pm = (Inr results, map (chunk_event self) cs)"
      by (cases ?pm) simp
    then have "Source_chunked_bytes R sched self fh ct =
        (case conclude_upload R self results of
           (r, ev') \<Rightarrow> (r, Initiate self ct # map (chunk_event self) cs @ ev'))"
      by (simp add: chunked_bytes_initiated[OF init])
    with acc m sig show ?thesis by blast
  qed
qed

lemma last_chunk_of_stream:
  assumes C: "C \<noteq> 0" and ne: "bs \<noteq> []"
  defines "cs \<equiv> chunks_of (ChunkIterator_init (FileHandle bs) C)"
  shows "cs \<noteq> []" "chained 0 0 cs" "chunk_seq (last cs) = int (length cs) - 1"
    "chunk_end (last cs) = int (length bs)"
proof -
  let ?it = "ChunkIterator_init (FileHandle bs) C"
  have it: "filelike ?it = FileHandle bs" "chunk_size ?it \<noteq> 0" "seq_num ?it = 0"
    "byte_offset ?it = 0"
    using C by (simp_all add: ChunkIterator_init_def)
  have cat: "concat (map chunk_payload cs) = bs"
    unfolding cs_def by (rule concat_payloads[OF it(1,2)])
  with ne show n: "cs \<noteq> []" by auto
  show ch: "chained 0 0 cs"
    using chained_chunks_of[of ?it] by (simp add: it cs_def)
  from n have k: "length cs - 1 < length cs" by simp
  from n have s: "Suc (length cs - 1) = length cs" by simp
  from chained_nth[OF ch k] have
    a: "chunk_seq (cs ! (length cs - 1)) = 0 + int (length cs - 1)" and
    b: "chunk_end (cs ! (length cs - 1)) =
          0 + int (length (concat (map chunk_payload (take (Suc (length cs - 1)) cs))))"
    by blast+
  from n have "0 < length cs" by simp
  then have "int (length cs - 1) = int (length cs) - 1" by linarith
  with a n show "chunk_seq (last cs) = int (length cs) - 1"
    by (simp add: last_conv_nth)
  from b n show "chunk_end (last cs) = int (length bs)"
    unfolding s by (simp add: last_conv_nth cat)
qed

lemma pool_map_events:
  "\<exists>j \<le> length (chunks_of it).
     snd (pool_map N (sendit R self) sched it) = map (chunk_event self) (take j (chunks_of it))"
proof (cases "1 \<le> N")
  case True
  from pool_map_sendit[OF True, of it R self sched] show ?thesis by blast
next
  case False
  then have "pool_map N (sendit R self) sched it = (Inl ValueError, [])"
    by (simp add: pool_map_no_workers)
  then show ?thesis by (intro exI[of _ 0]) simp
qed

lemma conclude_upload_events:
  "\<exists>s e. snd (conclude_upload R self results) = [] \<or>
         snd (conclude_upload R self results) = [Commit self s e] \<or>
         snd (conclude_upload R self results) = [Commit self s e, Show self]"
  by (auto simp: conclude_upload_def split: sum.splits prod.splits)

text \<open>
  Every run issues initiate, then chunk calls, then at most commit and show, all on
  the resource the method was called on.
\<close>

lemma chunked_bytes_trace:
  "\<exists>cs tail.
     snd (Source_chunked_bytes R sched self fh ct) =
       Initiate self ct # map (chunk_event self) cs @ tail \<and>
     chunk_calls tail = [] \<and> initiate_calls tail = [] \<and> toggle_calls tail = [] \<and>
     (\<forall>ev \<in> set tail. event_source ev = self)"
proof (cases "initiate_reply R self ct")
  case (Inl e)
  then have "snd (Source_chunked_bytes R sched self fh ct) =
      Initiate self ct # map (chunk_event self) [] @ []"
    by (simp add: chunked_bytes_initiate_failed)
  then show ?thesis by (intro exI[of _ "[]"]) simp
next
  case (Inr init)
  let ?it = "ChunkIterator_init fh (preferred_chunk_size init)"
  let ?pm = "pool_map (preferred_upload_parallelism init) (sendit R self) sched ?it"
  from pool_map_events[of ?it "preferred_upload_parallelism init" R self sched]
  obtain j where ev: "snd ?pm = map (chunk_event self) (take j (chunks_of ?it))" by blast
  show ?thesis
  proof (cases "fst ?pm")
    case (Inl e)
    with ev have "?pm = (Inl e, map (chunk_event self) (take j (chunks_of ?it)))"
      by (cases ?pm) simp
    then have "snd (Source_chunked_bytes R sched self fh ct) =
        Initiate self ct # map (chunk_event self) (take j (chunks_of ?it)) @ []"
      by (simp add: chunked_bytes_initiated[OF Inr])
    then show ?thesis by (intro exI[of _ "take j (chunks_of ?it)"] exI[of _ "[]"]) simp
  next
    case r: (Inr results)
    with ev have "?pm = (Inr results, map (chunk_event self) (take j (chunks_of ?it)))"
      by (cases ?pm) simp
    then have t: "snd (Source_chunked_bytes R sched self fh ct) =
        Initiate self ct # map (chunk_event self) (take j (chunks_of ?it)) @
          snd (conclude_upload R self results)"
      by (simp add: chunked_bytes_initiated[OF Inr] split: prod.splits)
    from conclude_upload_events[of R self results] obtain s e where
      "snd (conclude_upload R self results) = [] \<or>
       snd (conclude_upload R self results) = [Commit self s e] \<or>
       snd (conclude_upload R self results) = [Commit self s e, Show self]" by blast
    then have "chunk_calls (snd (conclude_upload R self results)) = [] \<and>
       initiate_calls (snd (conclude_upload R self results)) = [] \<and>
       toggle_calls (snd (conclude_upload R self results)) = [] \<and>
       (\<forall>ev \<in> set (snd (conclude_upload R self results)). event_source ev = self)"
      by auto
    with t show ?thesis by blast
  qed
qed


lemma chunked_bytes_toggle_calls:
  "toggle_calls (snd (Source_chunked_bytes R sched self fh ct)) = []"
proof -
  from chunked_bytes_trace[of R sched self fh ct] obtain cs tail where
    "snd (Source_chunked_bytes R sched self fh ct) =
       Initiate self ct # map (chunk_event self) cs @ tail" "toggle_calls tail = []"
    by blast
  then show ?thesis by simp
qed

lemma chunked_bytes_event_source:
  "ev \<in> set (snd (Source_chunked_bytes R sched self fh ct)) \<Longrightarrow> event_source ev = self"
proof -
  assume a: "ev \<in> set (snd (Source_chunked_bytes R sched self fh ct))"
  from chunked_bytes_trace[of R sched self fh ct] obtain cs tail where
    t: "snd (Source_chunked_bytes R sched self fh ct) =
       Initiate self ct # map (chunk_event self) cs @ tail"
    and s: "\<forall>ev \<in> set tail. event_source ev = self"
    by blast
  from a s show ?thesis unfolding t by (auto simp: chunk_event_def)
qed

lemma chunks_of_empty_handle: "chunks_of (ChunkIterator_init (FileHandle []) C) = []"
  by (subst chunks_of_unfold) (simp add: ChunkIterator_next_def ChunkIterator_init_def)


lemma chained_distinct_seq:
  "chained s b cs \<Longrightarrow> distinct (map chunk_seq cs)"
proof -
  assume ch: "chained s b cs"
  have "map chunk_seq cs = map (\<lambda>i. s + int i) [0..<length cs]"
    by (rule nth_equalityI) (use chained_nth[OF ch] in auto)
  moreover have "distinct (map (\<lambda>i. s + int i) [0..<length cs])"
    by (simp add: distinct_map inj_on_def)
  ultimately show ?thesis by simp
qed

lemma distinct_take_map: "distinct (map f xs) \<Longrightarrow> distinct (map f (take j xs))"
  by (simp add: take_map[symmetric])

lemma blob_toggled:
  "parse_source self \<Longrightarrow>
   change_parse_option_reply R self ''parse_source'' False = Inr src \<Longrightarrow>
   Source_blob R sched self fh =
     (fst (Source_chunked_bytes R sched src fh ''application/octet-stream''),
      ChangeParseOption self ''parse_source'' False #
        snd (Source_chunked_bytes R sched src fh ''application/octet-stream''))"
  by (simp add: Source_blob_def change_parse_option_def case_prod_beta)

lemma blob_toggle_failed:
  "parse_source self \<Longrightarrow>
   change_parse_option_reply R self ''parse_source'' False = Inl e \<Longrightarrow>
   Source_blob R sched self fh = (Inl e, [ChangeParseOption self ''parse_source'' False])"
  by (simp add: Source_blob_def change_parse_option_def)

lemma blob_untoggled:
  "\<not> parse_source self \<Longrightarrow>
   Source_blob R sched self fh =
     Source_chunked_bytes R sched self fh ''application/octet-stream''"
  by (simp add: Source_blob_def)

subsection \<open>Properties of the shared iterator\<close>

lemma shared_inv_init: "shared_inv (chunks_of (ChunkIterator_init f C)) (shared_init n f C)"
  by (simp add: shared_inv_def shared_init_def)

lemma empty_read_again:
  "file_read f n = Inr ([], f') \<Longrightarrow> file_read f' n = Inr ([], f')"
  by (cases f) (auto split: if_splits)

lemma chunks_of_read_error:
  "file_read (filelike it) (chunk_size it) = Inl e \<Longrightarrow> chunks_of it = []"
  by (subst chunks_of_unfold) (simp add: ChunkIterator_next_def)

lemma chunks_of_empty_read:
  "file_read (filelike it) (chunk_size it) = Inr ([], f') \<Longrightarrow> chunks_of it = []"
  by (subst chunks_of_unfold) (simp add: ChunkIterator_next_def)

lemma chunks_of_read:
  "file_read (filelike pre) (chunk_size pre) = Inr (read, f') \<Longrightarrow> read \<noteq> [] \<Longrightarrow>
   chunks_of pre =
     (seq_num pre, byte_offset pre, byte_offset pre + int (length read), read) #
     chunks_of (pre\<lparr>filelike := f', seq_num := seq_num pre + 1,
                    byte_offset := byte_offset pre + int (length read)\<rparr>)"
  by (subst chunks_of_unfold) (simp add: ChunkIterator_next_def Let_def)


lemma holder_inside:
  assumes inv: "shared_inv every st" and t: "t < length (callers st)"
    and p: "callers st ! t \<noteq> Outside"
  shows "lock st = Some t"
    and "\<exists>pre. map snd (delivered st) @ chunks_of pre = every \<and>
               in_progress pre (iterator st) (callers st ! t)"
proof -
  from inv t p show l: "lock st = Some t" unfolding shared_inv_def by blast
  from inv show "\<exists>pre. map snd (delivered st) @ chunks_of pre = every \<and>
               in_progress pre (iterator st) (callers st ! t)"
    unfolding shared_inv_def l by simp
qed

lemma others_outside:
  assumes inv: "shared_inv every st" and l: "lock st = Some t"
    and u: "u < length (callers st)" "u \<noteq> t"
  shows "callers st ! u = Outside"
  using inv l u unfolding shared_inv_def by auto

lemma inv_keep_lock:
  assumes inv: "shared_inv every st" and t: "t < length (callers st)" and l: "lock st = Some t"
    and st': "lock st' = Some t" "callers st' = (callers st)[t := p]" "delivered st' = delivered st"
    and pre: "\<exists>pre. map snd (delivered st) @ chunks_of pre = every \<and>
                   in_progress pre (iterator st') p"
  shows "shared_inv every st'"
  unfolding shared_inv_def st'
  using t pre others_outside[OF inv l] by (auto simp: nth_list_update)

lemma inv_release:
  assumes inv: "shared_inv every st" and t: "t < length (callers st)" and l: "lock st = Some t"
    and st': "lock st' = None" "callers st' = (callers st)[t := Outside]"
    and every: "map snd (delivered st') @ chunks_of (iterator st') = every"
  shows "shared_inv every st'"
  unfolding shared_inv_def st'
  using t every others_outside[OF inv l] by (auto simp: nth_list_update)

lemma caller_step_inv:
  assumes inv: "shared_inv every st" and step: "caller_step t st = Some st'"
  shows "shared_inv every st'"
proof -
  from step have t: "t < length (callers st)"
    by (auto simp: caller_step_def split: if_splits)
  show ?thesis
  proof (cases "callers st ! t")
    case Outside
    with step t have l: "lock st = None"
      and st': "st' = st\<lparr>lock := Some t, callers := (callers st)[t := Acquired]\<rparr>"
      by (auto simp: caller_step_def split: option.splits)
    from inv l have "\<forall>u < length (callers st). callers st ! u = Outside"
      and "map snd (delivered st) @ chunks_of (iterator st) = every"
      unfolding shared_inv_def by auto
    then show ?thesis
      unfolding shared_inv_def st' using t by (auto simp: nth_list_update)
  next
    case Acquired
    from holder_inside[OF inv t] Acquired obtain pre where l: "lock st = Some t"
      and e: "map snd (delivered st) @ chunks_of pre = every" and p: "iterator st = pre"
      by auto
    show ?thesis
    proof (cases "file_read (filelike (iterator st)) (chunk_size (iterator st))")
      case (Inl err)
      with step t Acquired have st': "st' = st\<lparr>lock := None,
          callers := (callers st)[t := Outside], raised := raised st @ [(t, err)]\<rparr>"
        by (simp add: caller_step_def)
      show ?thesis
        by (rule inv_release[OF inv t l]) (use e p in \<open>simp_all add: st'\<close>)
    next
      case (Inr r)
      obtain read f' where r: "r = (read, f')" by (cases r)
      with Inr step t Acquired have st': "st' = st\<lparr>iterator := (iterator st)\<lparr>filelike := f'\<rparr>,
          callers := (callers st)[t := ReadDone read]\<rparr>"
        by (simp add: caller_step_def)
      show ?thesis
        by (rule inv_keep_lock[OF inv t l, where p = "ReadDone read"])
           (use e p Inr r l in \<open>auto simp: st'\<close>)
    qed
  next
    case (ReadDone read)
    from holder_inside[OF inv t] ReadDone obtain pre where l: "lock st = Some t"
      and e: "map snd (delivered st) @ chunks_of pre = every"
      and r: "file_read (filelike pre) (chunk_size pre) = Inr (read, filelike (iterator st))"
      and c: "iterator st = pre\<lparr>filelike := filelike (iterator st)\<rparr>"
      by auto
    show ?thesis
    proof (cases "read = []")
      case True
      with step t ReadDone have st': "st' = st\<lparr>lock := None,
          callers := (callers st)[t := Outside], raised := raised st @ [(t, StopIteration)]\<rparr>"
        by (simp add: caller_step_def)
      from r True have a: "chunks_of pre = []" by (simp add: chunks_of_empty_read)
      from r True have "file_read (filelike (iterator st)) (chunk_size pre)
          = Inr ([], filelike (iterator st))"
        by (simp add: empty_read_again)
      moreover from c have "chunk_size (iterator st) = chunk_size pre"
        by (metis ChunkIterator.select_convs(2) ChunkIterator.surjective ChunkIterator.update_convs(1))
      ultimately have b: "chunks_of (iterator st) = []" by (simp add: chunks_of_empty_read)
      show ?thesis
        by (rule inv_release[OF inv t l]) (use e a b in \<open>simp_all add: st'\<close>)
    next
      case False
      with step t ReadDone have st': "st' = st\<lparr>callers :=
          (callers st)[t := GotSeq read (seq_num (iterator st))]\<rparr>"
        by (simp add: caller_step_def)
      from c have s: "seq_num (iterator st) = seq_num pre"
        by (metis ChunkIterator.select_convs(3) ChunkIterator.surjective ChunkIterator.update_convs(1))
      show ?thesis
        by (rule inv_keep_lock[OF inv t l, where p = "GotSeq read (seq_num (iterator st))"])
           (use e r c s False l in \<open>auto simp: st'\<close>)
    qed
  next
    case (GotSeq read s)
    from holder_inside[OF inv t] GotSeq obtain pre where l: "lock st = Some t"
      and e: "map snd (delivered st) @ chunks_of pre = every"
      and r: "file_read (filelike pre) (chunk_size pre) = Inr (read, filelike (iterator st))"
      and c: "iterator st = pre\<lparr>filelike := filelike (iterator st)\<rparr>"
      and n: "read \<noteq> []" and s: "s = seq_num pre"
      by auto
    from step t GotSeq have st': "st' = st\<lparr>callers :=
        (callers st)[t := GotOffset read s (byte_offset (iterator st))]\<rparr>"
      by (simp add: caller_step_def)
    from c have b: "byte_offset (iterator st) = byte_offset pre"
      by (metis ChunkIterator.select_convs(4) ChunkIterator.surjective ChunkIterator.update_convs(1))
    show ?thesis
      by (rule inv_keep_lock[OF inv t l, where p = "GotOffset read s (byte_offset (iterator st))"])
         (use e r c n s b l in \<open>auto simp: st'\<close>)
  next
    case (GotOffset read s b)
    from holder_inside[OF inv t] GotOffset obtain pre where l: "lock st = Some t"
      and e: "map snd (delivered st) @ chunks_of pre = every"
      and r: "file_read (filelike pre) (chunk_size pre) = Inr (read, filelike (iterator st))"
      and c: "iterator st = pre\<lparr>filelike := filelike (iterator st)\<rparr>"
      and n: "read \<noteq> []" and s: "s = seq_num pre" and b: "b = byte_offset pre"
      by auto
    from step t GotOffset have st': "st' = st\<lparr>iterator :=
          (iterator st)\<lparr>seq_num := seq_num (iterator st) + 1\<rparr>,
        callers := (callers st)[t := SeqBumped read s b]\<rparr>"
      by (simp add: caller_step_def)
    have c': "(iterator st)\<lparr>seq_num := seq_num (iterator st) + 1\<rparr> =
        pre\<lparr>filelike := filelike (iterator st), seq_num := seq_num pre + 1\<rparr>"
      by (subst c, subst (2) c) simp
    show ?thesis
      by (rule inv_keep_lock[OF inv t l, where p = "SeqBumped read s b"])
         (use e r c' n s b l in \<open>auto simp: st'\<close>)
  next
    case (SeqBumped read s b)
    from holder_inside[OF inv t] SeqBumped obtain pre where l: "lock st = Some t"
      and e: "map snd (delivered st) @ chunks_of pre = every"
      and r: "file_read (filelike pre) (chunk_size pre) = Inr (read, filelike (iterator st))"
      and c: "iterator st = pre\<lparr>filelike := filelike (iterator st), seq_num := seq_num pre + 1\<rparr>"
      and n: "read \<noteq> []" and s: "s = seq_num pre" and b: "b = byte_offset pre"
      by auto
    from step t SeqBumped have st': "st' = st\<lparr>iterator :=
          (iterator st)\<lparr>byte_offset := byte_offset (iterator st) + int (length read)\<rparr>,
        callers := (callers st)[t := OffsetBumped read s b]\<rparr>"
      by (simp add: caller_step_def)
    have c': "(iterator st)\<lparr>byte_offset := byte_offset (iterator st) + int (length read)\<rparr> =
        pre\<lparr>filelike := filelike (iterator st), seq_num := seq_num pre + 1,
            byte_offset := byte_offset pre + int (length read)\<rparr>"
      by (subst c, subst (2) c) simp
    show ?thesis
      by (rule inv_keep_lock[OF inv t l, where p = "OffsetBumped read s b"])
         (use e r c' n s b l in \<open>auto simp: st'\<close>)
  next
    case (OffsetBumped read s b)
    from holder_inside[OF inv t] OffsetBumped obtain pre where l: "lock st = Some t"
      and e: "map snd (delivered st) @ chunks_of pre = every"
      and r: "file_read (filelike pre) (chunk_size pre) = Inr (read, filelike (iterator st))"
      and c: "iterator st = pre\<lparr>filelike := filelike (iterator st), seq_num := seq_num pre + 1,
            byte_offset := byte_offset pre + int (length read)\<rparr>"
      and n: "read \<noteq> []" and s: "s = seq_num pre" and b: "b = byte_offset pre"
      by auto
    from step t OffsetBumped have st': "st' = st\<lparr>lock := None,
        callers := (callers st)[t := Outside],
        delivered := delivered st @ [(t, (s, b, byte_offset (iterator st), read))]\<rparr>"
      by (simp add: caller_step_def)
    from c have bo: "byte_offset (iterator st) = byte_offset pre + int (length read)"
      by (metis ChunkIterator.select_convs(4) ChunkIterator.surjective ChunkIterator.update_convs(4))
    from chunks_of_read[OF r n] c have "chunks_of pre =
        (s, b, byte_offset (iterator st), read) # chunks_of (iterator st)"
      by (simp add: s b bo)
    with e have "map snd (delivered st @ [(t, (s, b, byte_offset (iterator st), read))]) @
        chunks_of (iterator st) = every" by simp
    then show ?thesis
      by (intro inv_release[OF inv t l]) (simp_all add: st')
  qed
qed

lemma interleave_inv: "shared_inv every st \<Longrightarrow> shared_inv every (interleave sched st)"
  by (induction sched arbitrary: st) (auto split: option.splits intro: caller_step_inv)


lemma chained_take: "chained s b cs \<Longrightarrow> chained s b (take j cs)"
proof (induction cs arbitrary: s b j)
  case Nil
  then show ?case by simp
next
  case (Cons c cs)
  then show ?case by (cases j) auto
qed

lemma concat_take_mono:
  "a \<le> b \<Longrightarrow> length (concat (map f (take a xs))) \<le> length (concat (map f (take b xs)))"
proof -
  assume "a \<le> b"
  then have "take b xs = take a xs @ take (b - a) (drop a xs)"
    using take_add[of a "b - a" xs] by simp
  then show ?thesis by simp
qed

lemma chained_ordered:
  assumes ch: "chained s b cs" and ik: "i < k" "k < length cs"
  shows "chunk_end (cs ! i) \<le> chunk_start (cs ! k)"
proof -
  from ik have i: "i < length cs" by simp
  from chained_nth[OF ch i] have
    e: "chunk_end (cs ! i) = b + int (length (concat (map chunk_payload (take (Suc i) cs))))"
    by blast
  from chained_nth[OF ch ik(2)] have
    st: "chunk_start (cs ! k) = b + int (length (concat (map chunk_payload (take k cs))))"
    by blast
  from ik(1) have "Suc i \<le> k" by simp
  from concat_take_mono[OF this, of chunk_payload cs] show ?thesis
    unfolding e st by simp
qed

lemma chained_nonempty_range:
  assumes ch: "chained s b cs" and c: "c \<in> set cs"
  shows "chunk_start c < chunk_end c"
proof -
  from c obtain i where i: "i < length cs" "c = cs ! i" by (auto simp: in_set_conv_nth)
  from chained_nth[OF ch i(1)] have
    "chunk_start (cs ! i) = b + int (length (concat (map chunk_payload (take i cs))))"
    "chunk_end (cs ! i) = b + int (length (concat (map chunk_payload (take (Suc i) cs))))"
    "chunk_payload (cs ! i) \<noteq> []" by blast+
  with i show ?thesis by (simp add: take_Suc_conv_app_nth)
qed

subsection \<open>Properties of the upload on any pool\<close>






subsection \<open>Claims about the upload pipeline\<close>

text \<open>
  Claim C1. For a non-empty stream, when initiate answers with at least one worker and
  a chunk size other than zero and the service accepts every chunk, then whatever the
  schedule of the workers: the completion record with the greatest sequence number
  is \<open>(k - 1, _, L)\<close>, with \<open>k\<close> the number of chunks and \<open>L\<close> the length of the
  stream; sorting any arrival order of the records and taking the last selects
  it; and the run calls commit exactly once, with \<open>(k - 1, L)\<close>, and returns what show
  answers unless commit fails.
\<close>

theorem commit_once_with_stream_length:
  assumes init: "initiate_reply R self content_type = Inr init"
    and N: "1 \<le> preferred_upload_parallelism init"
    and C: "preferred_chunk_size init \<noteq> 0"
    and ne: "bs \<noteq> []"
    and acc: "\<forall>c \<in> set (chunks_of (ChunkIterator_init (FileHandle bs) (preferred_chunk_size init))).
        chunk_reply R self (chunk_seq c) (chunk_start c) (chunk_payload c) = Inr ()"
  shows "let cs = chunks_of (ChunkIterator_init (FileHandle bs) (preferred_chunk_size init));
             records = map (\<lambda>c. (chunk_seq c, chunk_start c, chunk_end c)) cs;
             top = (int (length cs) - 1, chunk_start (last cs), int (length bs));
             run = Source_chunked_bytes R sched self (FileHandle bs) content_type
         in top \<in> set records \<and>
            (\<forall>r \<in> set records. fst r \<le> fst top) \<and>
            (\<forall>results. mset results = mset records \<longrightarrow>
               py_last (sort_key (\<lambda>x. fst x) results) = Inr top) \<and>
            commit_calls (snd run) = [(self, int (length cs) - 1, int (length bs))] \<and>
            fst run = (case commit_reply R self (int (length cs) - 1) (int (length bs)) of
                         Inl e \<Rightarrow> Inl e | Inr ack \<Rightarrow> show_reply R self)"
proof -
  let ?it = "ChunkIterator_init (FileHandle bs) (preferred_chunk_size init)"
  define cs where "cs = chunks_of ?it"
  define top where "top = (int (length cs) - 1, chunk_start (last cs), int (length bs))"
  let ?run = "Source_chunked_bytes R sched self (FileHandle bs) content_type"
  have rec: "map (\<lambda>c. (chunk_seq c, chunk_start c, chunk_end c)) cs = map completion_of cs"
    by (simp add: completion_of_def)
  from last_chunk_of_stream[OF C ne] have cne: "cs \<noteq> []" and ch: "chained 0 0 cs"
    and ls: "chunk_seq (last cs) = int (length cs) - 1"
    and le: "chunk_end (last cs) = int (length bs)"
    unfolding cs_def by blast+
  have top: "top = completion_of (last cs)"
    by (simp add: top_def completion_of_def ls le)
  have mem: "top \<in> set (map completion_of cs)"
    unfolding top using cne by simp
  have max: "fst r \<le> fst top" if "r \<in> set (map completion_of cs)" for r
  proof -
    from that obtain i where i: "i < length cs" "r = completion_of (cs ! i)"
      by (auto simp: in_set_conv_nth)
    from chained_nth[OF ch i(1)] have "chunk_seq (cs ! i) = 0 + int i" by blast
    with i show ?thesis by (simp add: top_def completion_of_def)
  qed
  have any_order: "py_last (sort_key (\<lambda>x. fst x) results) = Inr top"
    if "mset results = mset (map completion_of cs)" for results
    unfolding top by (rule last_by_seq[OF ch cne that])
  have sig: "end_signal ?it = StopIteration"
    by (rule end_signal_FileHandle) (simp add: ChunkIterator_init_def)
  have all_ok: "chunk_reply R self (chunk_seq c) (chunk_start c) (chunk_payload c) = Inr ()"
    if "c \<in> set (take j cs)" for c j
    using acc that set_take_subset[of j cs] unfolding cs_def by blast
  from chunked_bytes_run[OF init N, where sched = sched and fh = "FileHandle bs"]
  obtain results where m: "mset results = mset (map completion_of cs)"
    and run: "?run = (case conclude_upload R self results of
                  (r, ev') \<Rightarrow> (r, Initiate self content_type # map (chunk_event self) cs @ ev'))"
    unfolding cs_def[symmetric] using sig all_ok by fastforce
  have cu: "conclude_upload R self results =
     (case commit_reply R self (int (length cs) - 1) (int (length bs)) of
        Inl e \<Rightarrow> (Inl e, [Commit self (int (length cs) - 1) (int (length bs))])
      | Inr ack \<Rightarrow> (show_reply R self,
          [Commit self (int (length cs) - 1) (int (length bs)), Show self]))"
    using conclude_upload_nonempty[OF ch cne m, of R self] by (simp only: ls le)
  have commits: "commit_calls (snd ?run) = [(self, int (length cs) - 1, int (length bs))]"
    unfolding run cu by (simp split: sum.splits)
  have res: "fst ?run = (case commit_reply R self (int (length cs) - 1) (int (length bs)) of
                         Inl e \<Rightarrow> Inl e | Inr ack \<Rightarrow> show_reply R self)"
    unfolding run cu by (simp split: sum.splits)
  show ?thesis
    unfolding Let_def cs_def[symmetric] rec top_def[symmetric]
    using mem max any_order commits res by blast
qed

theorem commit_once_with_stream_length_witness:
  "initiate_reply example_remote example_source ''text/csv'' = Inr example_init \<and>
   1 \<le> preferred_upload_parallelism example_init \<and>
   preferred_chunk_size example_init \<noteq> 0 \<and>
   fst (pool_map 3 (sendit example_remote example_source)
          [Admit, Admit, Admit, Finish 2, Finish 0, Finish 0]
          (ChunkIterator_init (FileHandle [1, 2, 3, 4, 5]) 2))
     = Inr [(2, 4, 5), (0, 0, 2), (1, 2, 4)] \<and>
   py_last (sort_key (\<lambda>x. fst x) [(2, 4, 5), (0, 0, 2), (1, 2, 4 :: int)])
     = Inr (2 :: int, 4 :: int, 5 :: int) \<and>
   commit_calls (snd (Source_chunked_bytes example_remote
      [Admit, Admit, Admit, Finish 2, Finish 0, Finish 0]
      example_source (FileHandle [1, 2, 3, 4, 5]) ''text/csv''))
     = [(example_source, 2, 5)]"
proof -
  let ?sched = "[Admit, Admit, Admit, Finish 2, Finish 0, Finish 0]"
  let ?bs = "[1, 2, 3, 4, 5] :: bytes"
  have h1: "initiate_reply example_remote example_source ''text/csv'' = Inr example_init"
    by (simp add: example_remote_def)
  have h2: "1 \<le> preferred_upload_parallelism example_init" by (simp add: example_init_def)
  have h3: "preferred_chunk_size example_init \<noteq> 0" by (simp add: example_init_def)
  have h4: "?bs \<noteq> []" by simp
  have h5: "\<forall>c \<in> set (chunks_of (ChunkIterator_init (FileHandle ?bs)
                (preferred_chunk_size example_init))).
        chunk_reply example_remote example_source (chunk_seq c) (chunk_start c) (chunk_payload c)
          = Inr ()"
    by (simp add: example_remote_def)
  have len: "length (chunks_of (ChunkIterator_init (FileHandle ?bs)
                (preferred_chunk_size example_init))) = 3"
    by code_simp
  have pm: "fst (pool_map 3 (sendit example_remote example_source) ?sched
                (ChunkIterator_init (FileHandle ?bs) 2))
     = Inr [(2, 4, 5), (0, 0, 2), (1, 2, 4)]" by code_simp
  have srt: "py_last (sort_key (\<lambda>x. fst x) [(2, 4, 5), (0, 0, 2), (1, 2, 4 :: int)])
     = Inr (2 :: int, 4 :: int, 5 :: int)" by code_simp
  from commit_once_with_stream_length[OF h1 h2 h3 h4 h5, of ?sched]
  have "commit_calls (snd (Source_chunked_bytes example_remote ?sched example_source
            (FileHandle ?bs) ''text/csv''))
     = [(example_source, 2, 5)]"
    unfolding Let_def by (simp add: len)
  with h1 h2 h3 pm srt show ?thesis by blast
qed

text \<open>
  Claim C4. For a stream of zero bytes, once initiate has answered (with at least one
  worker), no chunk is produced, neither commit nor show is called, and the run does
  not return a snapshot: \<^verbatim>\<open>sorted(results, ...)[-1]\<close> raises IndexError on the empty
  list of results.
\<close>

theorem empty_stream_raises_IndexError:
  assumes init: "initiate_reply R self content_type = Inr init"
    and N: "1 \<le> preferred_upload_parallelism init"
  shows "Source_chunked_bytes R sched self (FileHandle []) content_type =
           (Inl IndexError, [Initiate self content_type])"
proof -
  let ?it = "ChunkIterator_init (FileHandle []) (preferred_chunk_size init)"
  have cs: "chunks_of ?it = []" by (rule chunks_of_empty_handle)
  have sig: "end_signal ?it = StopIteration"
    by (rule end_signal_FileHandle) (simp add: ChunkIterator_init_def)
  from chunked_bytes_run[OF init N, where sched = sched and fh = "FileHandle []"]
  obtain results where m: "mset results = mset (map completion_of (chunks_of ?it))"
    and run: "Source_chunked_bytes R sched self (FileHandle []) content_type =
       (case conclude_upload R self results of
          (r, ev') \<Rightarrow> (r, Initiate self content_type # map (chunk_event self) (chunks_of ?it) @ ev'))"
    unfolding cs using sig by fastforce
  from m have "results = []" by (simp add: cs)
  with run show ?thesis by (simp add: cs conclude_upload_empty)
qed

theorem empty_stream_raises_IndexError_witness:
  "initiate_reply example_remote example_source ''text/csv'' = Inr example_init \<and>
   1 \<le> preferred_upload_parallelism example_init \<and>
   Source_csv example_remote [] example_source (FileHandle []) =
     (Inl IndexError, [Initiate example_source ''text/csv''])"
proof -
  have h1: "initiate_reply example_remote example_source ''text/csv'' = Inr example_init"
    by (simp add: example_remote_def)
  have h2: "1 \<le> preferred_upload_parallelism example_init" by (simp add: example_init_def)
  from empty_stream_raises_IndexError[OF h1 h2, of "[]"] h1 h2 show ?thesis
    by (simp add: Source_csv_def)
qed

text \<open>
  Claim C5. For every stream and every schedule, if a chunk call that the run makes
  is answered by an error, then the run ends with the error of a chunk call it made,
  commit is not called, show is not called, and the chunk calls made carry pairwise
  different sequence numbers: no chunk is sent twice.
\<close>

theorem chunk_failure_aborts_upload:
  assumes call: "(s, seq, start, payload) \<in>
        set (chunk_calls (snd (Source_chunked_bytes R sched self (FileHandle bs) content_type)))"
    and fail: "chunk_reply R s seq start payload = Inl err"
  shows "(\<exists>e s' seq' start' payload'.
            fst (Source_chunked_bytes R sched self (FileHandle bs) content_type) = Inl e \<and>
            (s', seq', start', payload') \<in>
              set (chunk_calls (snd (Source_chunked_bytes R sched self (FileHandle bs) content_type))) \<and>
            chunk_reply R s' seq' start' payload' = Inl e) \<and>
         commit_calls (snd (Source_chunked_bytes R sched self (FileHandle bs) content_type)) = [] \<and>
         show_calls (snd (Source_chunked_bytes R sched self (FileHandle bs) content_type)) = [] \<and>
         distinct (map (\<lambda>c. fst (snd c))
           (chunk_calls (snd (Source_chunked_bytes R sched self (FileHandle bs) content_type))))"
proof -
  let ?run = "Source_chunked_bytes R sched self (FileHandle bs) content_type"
  obtain init where init: "initiate_reply R self content_type = Inr init"
  proof (cases "initiate_reply R self content_type")
    case (Inl e)
    with call show ?thesis by (simp add: chunked_bytes_initiate_failed)
  next
    case (Inr init)
    then show ?thesis by (rule that)
  qed
  have N: "1 \<le> preferred_upload_parallelism init"
  proof (rule ccontr)
    assume "\<not> 1 \<le> preferred_upload_parallelism init"
    with call show False
      by (simp add: chunked_bytes_initiated[OF init] pool_map_no_workers)
  qed
  let ?it = "ChunkIterator_init (FileHandle bs) (preferred_chunk_size init)"
  let ?cs = "chunks_of ?it"
  have sig: "end_signal ?it = StopIteration"
    by (rule end_signal_FileHandle) (simp add: ChunkIterator_init_def)
  have ch: "chained 0 0 ?cs"
    using chained_chunks_of[of ?it] by (simp add: ChunkIterator_init_def)
  have tail: "chunk_calls (snd (conclude_upload R self results)) = []" for results
    using conclude_upload_events[of R self results] by auto
  from chunked_bytes_run[OF init N, where sched = sched and fh = "FileHandle bs"]
  consider (failed) j e where "j \<le> length ?cs"
      "?run = (Inl e, Initiate self content_type # map (chunk_event self) (take j ?cs))"
      "(\<exists>c \<in> set (take j ?cs).
            chunk_reply R self (chunk_seq c) (chunk_start c) (chunk_payload c) = Inl e) \<or>
          (e \<noteq> StopIteration \<and> end_signal ?it = e)"
    | (sent) results where "\<forall>c \<in> set ?cs. chunk_accepted R self c"
      "?run = (case conclude_upload R self results of
          (r, ev') \<Rightarrow> (r, Initiate self content_type # map (chunk_event self) ?cs @ ev'))"
    by blast
  then show ?thesis
  proof cases
    case failed
    note j = failed(1) and run = failed(2) and why = failed(3)
    from why sig obtain c where c: "c \<in> set (take j ?cs)"
      "chunk_reply R self (chunk_seq c) (chunk_start c) (chunk_payload c) = Inl e" by auto
    have cc: "chunk_calls (snd ?run) =
        map (\<lambda>c. (self, chunk_seq c, chunk_start c, chunk_payload c)) (take j ?cs)"
      by (simp add: run)
    from c(1) have "(self, chunk_seq c, chunk_start c, chunk_payload c) \<in> set (chunk_calls (snd ?run))"
      unfolding cc by (simp add: image_iff) blast
    with c(2) run have first: "\<exists>e s' seq' start' payload'. fst ?run = Inl e \<and>
        (s', seq', start', payload') \<in> set (chunk_calls (snd ?run)) \<and>
        chunk_reply R s' seq' start' payload' = Inl e"
      by (metis fst_conv)
    have "map (\<lambda>c. fst (snd c)) (chunk_calls (snd ?run)) = map chunk_seq (take j ?cs)"
      unfolding cc by simp
    moreover have "distinct (map chunk_seq (take j ?cs))"
      by (rule distinct_take_map[OF chained_distinct_seq[OF ch]])
    ultimately have d: "distinct (map (\<lambda>c. fst (snd c)) (chunk_calls (snd ?run)))" by simp
    have "commit_calls (snd ?run) = []" "show_calls (snd ?run) = []" by (simp_all add: run)
    with first d show ?thesis by blast
  next
    case sent
    note acc = sent(1) and run = sent(2)
    have "chunk_calls (snd ?run) =
        map (\<lambda>c. (self, chunk_seq c, chunk_start c, chunk_payload c)) ?cs"
    proof -
      obtain r ev' where cu: "conclude_upload R self results = (r, ev')"
        by (cases "conclude_upload R self results")
      with tail[of results] have "chunk_calls ev' = []" by simp
      with cu show ?thesis unfolding run by simp
    qed
    with call obtain c where "c \<in> set ?cs" "s = self" "seq = chunk_seq c"
      "start = chunk_start c" "payload = chunk_payload c" by auto
    with acc fail show ?thesis by (auto simp: chunk_accepted_def)
  qed
qed

theorem chunk_failure_aborts_upload_witness:
  "(example_source, 1, 2, [3, 4]) \<in>
     set (chunk_calls (snd (Source_csv failing_remote [Admit, Admit, Finish 1, Admit]
            example_source (FileHandle [1, 2, 3, 4, 5, 6, 7, 8, 9])))) \<and>
   chunk_reply failing_remote example_source 1 2 [3, 4] = Inl (TransportError 500) \<and>
   Source_csv failing_remote [Admit, Admit, Finish 1, Admit] example_source
       (FileHandle [1, 2, 3, 4, 5, 6, 7, 8, 9]) =
     (Inl (TransportError 500),
      [Initiate example_source ''text/csv'', Chunk example_source 0 0 [1, 2],
       Chunk example_source 1 2 [3, 4]]) \<and>
   commit_calls (snd (Source_csv failing_remote [Admit, Admit, Finish 1, Admit] example_source
       (FileHandle [1, 2, 3, 4, 5, 6, 7, 8, 9]))) = [] \<and>
   show_calls (snd (Source_csv failing_remote [Admit, Admit, Finish 1, Admit] example_source
       (FileHandle [1, 2, 3, 4, 5, 6, 7, 8, 9]))) = []"
proof -
  let ?run = "Source_csv failing_remote [Admit, Admit, Finish 1, Admit] example_source
       (FileHandle [1, 2, 3, 4, 5, 6, 7, 8, 9])"
  have ev: "?run = (Inl (TransportError 500),
      [Initiate example_source ''text/csv'', Chunk example_source 0 0 [1, 2],
       Chunk example_source 1 2 [3, 4]])"
    by code_simp
  have h1: "(example_source, 1, 2, [3, 4]) \<in> set (chunk_calls (snd ?run))"
    unfolding ev by simp
  have h2: "chunk_reply failing_remote example_source 1 2 [3, 4] = Inl (TransportError 500)"
    by (simp add: failing_remote_def)
  from chunk_failure_aborts_upload[OF h1[unfolded Source_csv_def] h2]
  have "commit_calls (snd ?run) = []" "show_calls (snd ?run) = []"
    unfolding Source_csv_def by blast+
  with ev h1 h2 show ?thesis by blast
qed



text \<open>
  Claim C7. When \<^verbatim>\<open>parse_source\<close> is set, blob first asks the resource layer to set it
  to False; when that returns a resource, the run is this one call followed by the
  pipeline on the returned resource, whose calls are all on that resource; when it
  raises, the error is the result and nothing else is called. When
  \<^verbatim>\<open>parse_source\<close> is not set, blob is the pipeline on the original resource and no
  parse option is changed.
\<close>

theorem blob_disables_parsing_first:
  "(parse_source self \<longrightarrow>
      (\<forall>src. change_parse_option_reply R self ''parse_source'' False = Inr src \<longrightarrow>
         Source_blob R sched self fh =
           (fst (Source_chunked_bytes R sched src fh ''application/octet-stream''),
            ChangeParseOption self ''parse_source'' False #
              snd (Source_chunked_bytes R sched src fh ''application/octet-stream'')) \<and>
         toggle_calls (snd (Source_blob R sched self fh)) = [(self, ''parse_source'', False)] \<and>
         (\<forall>ev \<in> set (snd (Source_chunked_bytes R sched src fh ''application/octet-stream'')).
            event_source ev = src)) \<and>
      (\<forall>e. change_parse_option_reply R self ''parse_source'' False = Inl e \<longrightarrow>
         Source_blob R sched self fh = (Inl e, [ChangeParseOption self ''parse_source'' False]))) \<and>
   (\<not> parse_source self \<longrightarrow>
      Source_blob R sched self fh =
        Source_chunked_bytes R sched self fh ''application/octet-stream'' \<and>
      toggle_calls (snd (Source_blob R sched self fh)) = [] \<and>
      (\<forall>ev \<in> set (snd (Source_blob R sched self fh)). event_source ev = self))"
  by (auto simp: blob_toggled blob_toggle_failed blob_untoggled chunked_bytes_toggle_calls
      chunked_bytes_event_source)

theorem blob_disables_parsing_first_witness:
  "parse_source example_source \<and>
   change_parse_option_reply example_remote example_source ''parse_source'' False =
     Inr \<lparr>source_id = 7, parse_source = False\<rparr> \<and>
   Source_blob example_remote [] example_source (FileHandle [1, 2, 3]) =
     (Inr \<lparr>source_id = 7, parse_source = False\<rparr>,
      [ChangeParseOption example_source ''parse_source'' False,
       Initiate \<lparr>source_id = 7, parse_source = False\<rparr> ''application/octet-stream'',
       Chunk \<lparr>source_id = 7, parse_source = False\<rparr> 0 0 [1, 2],
       Chunk \<lparr>source_id = 7, parse_source = False\<rparr> 1 2 [3],
       Commit \<lparr>source_id = 7, parse_source = False\<rparr> 1 3,
       Show \<lparr>source_id = 7, parse_source = False\<rparr>]) \<and>
   \<not> parse_source \<lparr>source_id = 7, parse_source = False\<rparr> \<and>
   Source_blob example_remote [] \<lparr>source_id = 7, parse_source = False\<rparr> (FileHandle [1, 2, 3]) =
     Source_chunked_bytes example_remote [] \<lparr>source_id = 7, parse_source = False\<rparr>
       (FileHandle [1, 2, 3]) ''application/octet-stream'' \<and>
   toggle_calls (snd (Source_blob example_remote [] \<lparr>source_id = 7, parse_source = False\<rparr>
       (FileHandle [1, 2, 3]))) = []"
proof -
  let ?off = "\<lparr>source_id = 7, parse_source = False\<rparr>"
  let ?fh = "FileHandle [1, 2, 3]"
  have h1: "parse_source example_source" by (simp add: example_source_def)
  have h2: "change_parse_option_reply example_remote example_source ''parse_source'' False =
     Inr ?off" by (simp add: example_remote_def example_source_def)
  have h3: "\<not> parse_source ?off" by simp
  have ev: "Source_chunked_bytes example_remote [] ?off ?fh ''application/octet-stream'' =
     (Inr ?off,
      [Initiate ?off ''application/octet-stream'', Chunk ?off 0 0 [1, 2], Chunk ?off 1 2 [3],
       Commit ?off 1 3, Show ?off])"
    by code_simp
  from blob_disables_parsing_first[of example_source example_remote "[]" ?fh] h1 h2
  have a: "Source_blob example_remote [] example_source ?fh =
       (fst (Source_chunked_bytes example_remote [] ?off ?fh ''application/octet-stream''),
        ChangeParseOption example_source ''parse_source'' False #
          snd (Source_chunked_bytes example_remote [] ?off ?fh ''application/octet-stream''))"
    by blast
  from blob_disables_parsing_first[of ?off example_remote "[]" ?fh] h3
  have b: "Source_blob example_remote [] ?off ?fh =
        Source_chunked_bytes example_remote [] ?off ?fh ''application/octet-stream''"
    "toggle_calls (snd (Source_blob example_remote [] ?off ?fh)) = []"
    by blast+
  from a b h1 h2 h3 show ?thesis unfolding ev by simp
qed

text \<open>
  Claim C8. Several callers share one ChunkIterator and each executes \<^verbatim>\<open>__next__\<close>
  statement by statement, in any interleaving. Whatever the interleaving, the
  chunks delivered so far, in the order of the returns, are an initial part of what
  one caller alone would get from the stream: their sequence numbers are pairwise
  different, no chunk is delivered twice, every range is non-empty and ends no later
  than the next one begins, and at most one caller is inside the method.
\<close>

theorem next_atomic_under_lock:
  "let st = interleave sched (shared_init n f C);
       given = map snd (delivered st)
   in (\<exists>j. given = take j (chunks_of (ChunkIterator_init f C))) \<and>
      distinct (map chunk_seq given) \<and>
      distinct given \<and>
      (\<forall>c \<in> set given. chunk_start c < chunk_end c) \<and>
      (\<forall>i k. i < k \<and> k < length given \<longrightarrow> chunk_end (given ! i) \<le> chunk_start (given ! k)) \<and>
      (\<forall>t u. t < length (callers st) \<and> u < length (callers st) \<and>
             callers st ! t \<noteq> Outside \<and> callers st ! u \<noteq> Outside \<longrightarrow> t = u)"
proof -
  define st where "st = interleave sched (shared_init n f C)"
  define given where "given = map snd (delivered st)"
  let ?every = "chunks_of (ChunkIterator_init f C)"
  have inv: "shared_inv ?every st"
    unfolding st_def by (rule interleave_inv[OF shared_inv_init])
  have "\<exists>rest. given @ rest = ?every"
    using inv unfolding shared_inv_def given_def by (cases "lock st") auto
  then obtain rest where rest: "given @ rest = ?every" ..
  then have "take (length given) ?every = given" by (metis append_eq_conv_conj)
  then have pre: "given = take (length given) ?every" by simp
  have "chained 0 0 ?every"
    using chained_chunks_of[of "ChunkIterator_init f C"] by (simp add: ChunkIterator_init_def)
  then have "chained 0 0 (take (length given) ?every)" by (rule chained_take)
  with pre have ch: "chained 0 0 given" by simp
  have d: "distinct (map chunk_seq given)" by (rule chained_distinct_seq[OF ch])
  then have d': "distinct given" by (simp add: distinct_map)
  have ne: "\<forall>c \<in> set given. chunk_start c < chunk_end c"
    using chained_nonempty_range[OF ch] by blast
  have ord: "\<forall>i k. i < k \<and> k < length given \<longrightarrow>
      chunk_end (given ! i) \<le> chunk_start (given ! k)"
    using chained_ordered[OF ch] by blast
  have mutex: "\<forall>t u. t < length (callers st) \<and> u < length (callers st) \<and>
             callers st ! t \<noteq> Outside \<and> callers st ! u \<noteq> Outside \<longrightarrow> t = u"
  proof (intro allI impI)
    fix t u
    assume a: "t < length (callers st) \<and> u < length (callers st) \<and>
             callers st ! t \<noteq> Outside \<and> callers st ! u \<noteq> Outside"
    with holder_inside(1)[OF inv, of t] holder_inside(1)[OF inv, of u]
    have "lock st = Some t" "lock st = Some u" by blast+
    then show "t = u" by simp
  qed
  from pre d d' ne ord mutex show ?thesis
    unfolding Let_def st_def[symmetric] given_def[symmetric] by blast
qed

theorem next_atomic_under_lock_witness:
  "delivered (interleave [0, 1, 0, 0, 1, 0, 0, 0, 0, 1, 1, 1, 1, 1, 1, 1, 1, 0]
      (shared_init 2 (FileHandle [1, 2, 3, 4, 5]) 2)) =
     [(0, (0, 0, 2, [1, 2])), (1, (1, 2, 4, [3, 4]))] \<and>
   callers (interleave [0, 1, 0, 0, 1, 0, 0, 0, 0, 1, 1, 1, 1, 1, 1, 1, 1, 0]
      (shared_init 2 (FileHandle [1, 2, 3, 4, 5]) 2)) = [Outside, Acquired] \<and>
   chunks_of (ChunkIterator_init (FileHandle [1, 2, 3, 4, 5]) 2) =
     [(0, 0, 2, [1, 2]), (1, 2, 4, [3, 4]), (2, 4, 5, [5])] \<and>
   distinct (map chunk_seq (map snd (delivered
     (interleave [0, 1, 0, 0, 1, 0, 0, 0, 0, 1, 1, 1, 1, 1, 1, 1, 1, 0]
        (shared_init 2 (FileHandle [1, 2, 3, 4, 5]) 2))))) \<and>
   chunk_end (0, 0, 2, [1, 2]) \<le> chunk_start (1, 2, 4, [3, 4])"
proof -
  let ?st = "interleave [0, 1, 0, 0, 1, 0, 0, 0, 0, 1, 1, 1, 1, 1, 1, 1, 1, 0]
      (shared_init 2 (FileHandle [1, 2, 3, 4, 5]) 2)"
  have ev: "delivered ?st = [(0, (0, 0, 2, [1, 2])), (1, (1, 2, 4, [3, 4]))]" by code_simp
  have cl: "callers ?st = [Outside, Acquired]" by code_simp
  have cs: "chunks_of (ChunkIterator_init (FileHandle [1, 2, 3, 4, 5]) 2) =
     [(0, 0, 2, [1, 2]), (1, 2, 4, [3, 4]), (2, 4, 5, [5])]" by code_simp
  from next_atomic_under_lock[of "[0, 1, 0, 0, 1, 0, 0, 0, 0, 1, 1, 1, 1, 1, 1, 1, 1, 0]" 2
      "FileHandle [1, 2, 3, 4, 5]" 2]
  have d: "distinct (map chunk_seq (map snd (delivered ?st)))"
    and o: "\<forall>i k. i < k \<and> k < length (map snd (delivered ?st)) \<longrightarrow>
       chunk_end (map snd (delivered ?st) ! i) \<le> chunk_start (map snd (delivered ?st) ! k)"
    unfolding Let_def by blast+
  from o have "(0::nat) < 1 \<and> 1 < length (map snd (delivered ?st)) \<longrightarrow>
       chunk_end (map snd (delivered ?st) ! 0) \<le> chunk_start (map snd (delivered ?st) ! 1)"
    by blast
  then have "chunk_end (0, 0, 2, [1, 2]) \<le> chunk_start (1, 2, 4, [3, 4])"
    unfolding ev by simp
  with ev cl cs d show ?thesis by blast
qed

text \<open>
  Claim C9. \<^verbatim>\<open>Source.bytes\<close> makes the calls \<^verbatim>\<open>_chunked_bytes\<close> makes and lets its errors
  through, but returns None where \<^verbatim>\<open>_chunked_bytes\<close> returns the snapshot, and never a
  snapshot; csv, xls, xlsx, tsv, shapefile, kml, geojson, df and blob return what
  \<^verbatim>\<open>_chunked_bytes\<close> returns.
\<close>

theorem bytes_returns_None:
  "snd (Source_bytes R sched self fh content_type) =
     snd (Source_chunked_bytes R sched self fh content_type) \<and>
   (\<forall>snapshot. fst (Source_chunked_bytes R sched self fh content_type) = Inr snapshot \<longrightarrow>
      fst (Source_bytes R sched self fh content_type) = Inr None) \<and>
   (\<forall>e. fst (Source_chunked_bytes R sched self fh content_type) = Inl e \<longrightarrow>
      fst (Source_bytes R sched self fh content_type) = Inl e) \<and>
   (\<forall>snapshot. fst (Source_bytes R sched self fh content_type) \<noteq> Inr (Some snapshot)) \<and>
   fst (Source_csv R sched self fh) = fst (Source_chunked_bytes R sched self fh ''text/csv'') \<and>
   fst (Source_xls R sched self fh) =
     fst (Source_chunked_bytes R sched self fh ''application/vnd.ms-excel'') \<and>
   fst (Source_xlsx R sched self fh) = fst (Source_chunked_bytes R sched self fh
     ''application/vnd.openxmlformats-officedocument.spreadsheetml.sheet'') \<and>
   fst (Source_tsv R sched self fh) =
     fst (Source_chunked_bytes R sched self fh ''text/tab-separated-values'') \<and>
   fst (Source_shapefile R sched self fh) =
     fst (Source_chunked_bytes R sched self fh ''application/zip'') \<and>
   fst (Source_kml R sched self fh) = fst (Source_chunked_bytes R sched self fh
     ''application/vnd.google-earth.kml+xml'') \<and>
   fst (Source_geojson R sched self fh) =
     fst (Source_chunked_bytes R sched self fh ''application/vnd.geo+json'') \<and>
   fst (Source_df R sched self csv_text) =
     fst (Source_chunked_bytes R sched self (BytesObject csv_text) ''text/csv'') \<and>
   (\<not> parse_source self \<longrightarrow> fst (Source_blob R sched self fh) =
     fst (Source_chunked_bytes R sched self fh ''application/octet-stream'')) \<and>
   (\<forall>src. parse_source self \<and>
           change_parse_option_reply R self ''parse_source'' False = Inr src \<longrightarrow>
      fst (Source_blob R sched self fh) =
        fst (Source_chunked_bytes R sched src fh ''application/octet-stream''))"
  by (auto simp: blob_toggled blob_untoggled Source_bytes_def Source_csv_def Source_xls_def
      Source_xlsx_def Source_tsv_def Source_shapefile_def Source_kml_def Source_geojson_def
      Source_df_def split: prod.splits sum.splits)

theorem bytes_returns_None_witness:
  "Source_chunked_bytes example_remote [] example_source (FileHandle [1, 2, 3]) ''text/csv'' =
     (Inr example_source,
      [Initiate example_source ''text/csv'', Chunk example_source 0 0 [1, 2],
       Chunk example_source 1 2 [3], Commit example_source 1 3, Show example_source]) \<and>
   Source_bytes example_remote [] example_source (FileHandle [1, 2, 3]) ''text/csv'' =
     (Inr None,
      [Initiate example_source ''text/csv'', Chunk example_source 0 0 [1, 2],
       Chunk example_source 1 2 [3], Commit example_source 1 3, Show example_source]) \<and>
   fst (Source_csv example_remote [] example_source (FileHandle [1, 2, 3])) = Inr example_source"
proof -
  let ?fh = "FileHandle [1, 2, 3]"
  have ev: "Source_chunked_bytes example_remote [] example_source ?fh ''text/csv'' =
     (Inr example_source,
      [Initiate example_source ''text/csv'', Chunk example_source 0 0 [1, 2],
       Chunk example_source 1 2 [3], Commit example_source 1 3, Show example_source])"
    by code_simp
  then have f: "fst (Source_chunked_bytes example_remote [] example_source ?fh ''text/csv'') =
     Inr example_source" by simp
  from bytes_returns_None[of example_remote "[]" example_source ?fh "''text/csv''"] f
  have a: "snd (Source_bytes example_remote [] example_source ?fh ''text/csv'') =
       snd (Source_chunked_bytes example_remote [] example_source ?fh ''text/csv'')"
    "fst (Source_bytes example_remote [] example_source ?fh ''text/csv'') = Inr None"
    "fst (Source_csv example_remote [] example_source ?fh) =
       fst (Source_chunked_bytes example_remote [] example_source ?fh ''text/csv'')"
    by blast+
  from a ev show ?thesis by (simp add: prod_eq_iff)
qed



end
